theory Spec2Isabelle
  imports Main "HOL-Library.Word" "HOL-Library.Tree"
begin

section \<open>The treap of treap.c as a program over an explicit store\<close>

text \<open>
  Node pointers are addresses; \<open>NULL\<close> is \<open>None\<close>. The store maps every address to the
  contents of a \<open>treap_node_t\<close>, so a write through one pointer is seen through every alias.
  \<open>unsigned int\<close> is a 32-bit word; the code only compares keys and priorities
  (unsigned \<open><\<close>, \<open>>\<close>, \<open>==\<close>), it never does arithmetic on them.
\<close>

type_synonym addr = nat
type_synonym uint = "32 word"

record treap_node =
  treeKey :: uint
  heapKey :: uint
  L :: "addr option"
  R :: "addr option"
  P :: "addr option"

record treap =
  root :: "addr option"
  mem :: "addr \<Rightarrow> treap_node"

subsection \<open>Field writes\<close>

definition set_L :: "treap \<Rightarrow> addr \<Rightarrow> addr option \<Rightarrow> treap" where
  "set_L s a v = s\<lparr>mem := (mem s)(a := (mem s a)\<lparr>L := v\<rparr>)\<rparr>"

definition set_R :: "treap \<Rightarrow> addr \<Rightarrow> addr option \<Rightarrow> treap" where
  "set_R s a v = s\<lparr>mem := (mem s)(a := (mem s a)\<lparr>R := v\<rparr>)\<rparr>"

definition set_P :: "treap \<Rightarrow> addr \<Rightarrow> addr option \<Rightarrow> treap" where
  "set_P s a v = s\<lparr>mem := (mem s)(a := (mem s a)\<lparr>P := v\<rparr>)\<rparr>"

definition set_heapKey :: "treap \<Rightarrow> addr \<Rightarrow> uint \<Rightarrow> treap" where
  "set_heapKey s a v = s\<lparr>mem := (mem s)(a := (mem s a)\<lparr>heapKey := v\<rparr>)\<rparr>"

text \<open>
  A \<open>treap_node_t **inPointer\<close> names one of three kinds of slot: the treap's root field,
  or the \<open>L\<close> or \<open>R\<close> field of a node.
\<close>

datatype slot = RootSlot | LSlot addr | RSlot addr

fun slot_write :: "treap \<Rightarrow> slot \<Rightarrow> addr option \<Rightarrow> treap" where
  "slot_write s RootSlot v = s\<lparr>root := v\<rparr>"
| "slot_write s (LSlot a) v = set_L s a v"
| "slot_write s (RSlot a) v = set_R s a v"

subsection \<open>treapRotate\<close>

text \<open>
  The statements of \<open>treapRotate\<close> in source order; every read is from the store as the
  preceding writes left it.
\<close>

definition rotate_right_part :: "treap \<Rightarrow> addr \<Rightarrow> addr \<Rightarrow> treap" where
  "rotate_right_part s rt pv =
     (let sa = (case R (mem s pv) of None \<Rightarrow> s | Some c \<Rightarrow> set_P s c (Some rt));
          sb = set_L sa rt (R (mem sa pv))
      in set_R sb pv (Some rt))"

definition rotate_left_part :: "treap \<Rightarrow> addr \<Rightarrow> addr \<Rightarrow> treap" where
  "rotate_left_part s rt pv =
     (let sa = (case L (mem s pv) of None \<Rightarrow> s | Some c \<Rightarrow> set_P s c (Some rt));
          sb = set_R sa rt (L (mem sa pv))
      in set_L sb pv (Some rt))"

definition rotate_common :: "treap \<Rightarrow> addr \<Rightarrow> addr \<Rightarrow> treap" where
  "rotate_common s1 rt pv =
     (let s2 = set_P s1 pv (P (mem s1 rt));
          s3 = (case P (mem s2 rt) of
                  None \<Rightarrow> s2\<lparr>root := Some pv\<rparr>
                | Some g \<Rightarrow>
                    if treeKey (mem s2 rt) < treeKey (mem s2 g)
                    then set_L s2 g (Some pv)
                    else set_R s2 g (Some pv))
      in set_P s3 rt (Some pv))"

definition treapRotate :: "treap \<Rightarrow> addr \<Rightarrow> addr \<Rightarrow> treap" where
  "treapRotate s rt pv =
     rotate_common
       (if treeKey (mem s pv) < treeKey (mem s rt)
        then rotate_right_part s rt pv
        else rotate_left_part s rt pv)
       rt pv"

subsection \<open>treapFind\<close>

text \<open>
  The \<open>while (cur != NULL)\<close> loop. On a store with a cycle it need not end, so it runs on
  fuel: one unit per node visited, \<open>None\<close> when the fuel is gone before the loop exits.
  The function only reads: it returns the pointer and nothing of the store.
\<close>

fun treapFind_loop :: "nat \<Rightarrow> (addr \<Rightarrow> treap_node) \<Rightarrow> addr option \<Rightarrow> uint \<Rightarrow> addr option option" where
  "treapFind_loop n m None key = Some None"
| "treapFind_loop 0 m (Some c) key = None"
| "treapFind_loop (Suc n) m (Some c) key =
     (if key < treeKey (m c) then treapFind_loop n m (L (m c)) key
      else if key > treeKey (m c) then treapFind_loop n m (R (m c)) key
      else Some (Some c))"

definition treapFind :: "nat \<Rightarrow> treap \<Rightarrow> uint \<Rightarrow> addr option option" where
  "treapFind n s key = treapFind_loop n (mem s) (root s) key"

subsection \<open>treapUsurpingFind\<close>

text \<open>
  \<open>cur->P\<close> is read three times in the source; the two writes in between are to
  \<open>heapKey\<close> fields, so all three reads give the same pointer \<open>p\<close>.
\<close>

definition treapUsurpingFind :: "nat \<Rightarrow> treap \<Rightarrow> uint \<Rightarrow> (treap \<times> addr option) option" where
  "treapUsurpingFind n s key =
     (case treapFind n s key of
        None \<Rightarrow> None
      | Some None \<Rightarrow> Some (s, None)
      | Some (Some cur) \<Rightarrow>
          (case P (mem s cur) of
             None \<Rightarrow> Some (s, Some cur)
           | Some p \<Rightarrow>
               (let tempKey = heapKey (mem s cur);
                    s1 = set_heapKey s cur (heapKey (mem s p));
                    s2 = set_heapKey s1 p tempKey
                in Some (treapRotate s2 p cur, Some cur))))"

subsection \<open>treapAppend\<close>

text \<open>
  The descent \<open>while ((next = (key < cur->treeKey) ? cur->L : cur->R) != NULL) cur = next\<close>:
  one unit of fuel per node visited. It goes right on an equal key as well.
\<close>

fun treapAppend_seek :: "nat \<Rightarrow> (addr \<Rightarrow> treap_node) \<Rightarrow> addr \<Rightarrow> uint \<Rightarrow> addr option" where
  "treapAppend_seek 0 m cur key = None"
| "treapAppend_seek (Suc n) m cur key =
     (case (if key < treeKey (m cur) then L (m cur) else R (m cur)) of
        None \<Rightarrow> Some cur
      | Some next \<Rightarrow> treapAppend_seek n m next key)"

text \<open>
  The priority loop \<open>while (newNode->P != NULL && newNode->heapKey > newNode->P->heapKey)\<close>:
  one unit of fuel per rotation.
\<close>

fun treapAppend_bubble :: "nat \<Rightarrow> treap \<Rightarrow> addr \<Rightarrow> treap option" where
  "treapAppend_bubble 0 s newNode =
     (case P (mem s newNode) of
        None \<Rightarrow> Some s
      | Some p \<Rightarrow> if heapKey (mem s newNode) > heapKey (mem s p) then None else Some s)"
| "treapAppend_bubble (Suc n) s newNode =
     (case P (mem s newNode) of
        None \<Rightarrow> Some s
      | Some p \<Rightarrow>
          if heapKey (mem s newNode) > heapKey (mem s p)
          then treapAppend_bubble n (treapRotate s p newNode) newNode
          else Some s)"

text \<open>
  Allocation, initialisation and linking of the new node, then the priority loop.
  \<open>hk\<close> is the value \<open>rand()\<close> returned and \<open>newNode\<close> the address \<open>malloc\<close> returned
  (the source does not check it for \<open>NULL\<close>; the model takes a successful allocation).
\<close>

definition treapAppend_link ::
    "nat \<Rightarrow> treap \<Rightarrow> uint \<Rightarrow> uint \<Rightarrow> addr \<Rightarrow> addr option \<Rightarrow> slot \<Rightarrow> (treap \<times> addr) option" where
  "treapAppend_link n s key hk newNode cur inPointer =
     (let s1 = s\<lparr>mem := (mem s)(newNode :=
                  \<lparr>treeKey = key, heapKey = hk, L = None, R = None, P = cur\<rparr>)\<rparr>;
          s2 = slot_write s1 inPointer (Some newNode)
      in case treapAppend_bubble n s2 newNode of
           None \<Rightarrow> None
         | Some s3 \<Rightarrow> Some (s3, newNode))"

definition treapAppend :: "nat \<Rightarrow> treap \<Rightarrow> uint \<Rightarrow> uint \<Rightarrow> addr \<Rightarrow> (treap \<times> addr) option" where
  "treapAppend n s key hk newNode =
     (case root s of
        None \<Rightarrow> treapAppend_link n s key hk newNode None RootSlot
      | Some c \<Rightarrow>
          (case treapAppend_seek n (mem s) c key of
             None \<Rightarrow> None
           | Some cur \<Rightarrow>
               if key = treeKey (mem s cur) then Some (s, cur)
               else treapAppend_link n s key hk newNode (Some cur)
                      (if key < treeKey (mem s cur) then LSlot cur else RSlot cur)))"

subsection \<open>treapDecouple\<close>

text \<open>
  The loop \<open>while (!(node->L == NULL || node->R == NULL))\<close>: one unit of fuel per rotation.
\<close>

fun treapDecouple_loop :: "nat \<Rightarrow> treap \<Rightarrow> addr \<Rightarrow> treap option" where
  "treapDecouple_loop 0 s node =
     (if L (mem s node) = None \<or> R (mem s node) = None then Some s else None)"
| "treapDecouple_loop (Suc n) s node =
     (case L (mem s node) of
        None \<Rightarrow> Some s
      | Some l \<Rightarrow>
          (case R (mem s node) of
             None \<Rightarrow> Some s
           | Some r \<Rightarrow>
               treapDecouple_loop n
                 (if heapKey (mem s l) > heapKey (mem s r)
                  then treapRotate s node l
                  else treapRotate s node r)
                 node))"

text \<open>
  The splice after the loop. The write \<open>*inPointer = node->R\<close> can only hit \<open>node->R\<close> itself
  when \<open>inPointer\<close> is \<open>&node->R\<close>, and then it stores the value already there; so
  the second read of \<open>node->R\<close> (and of \<open>node->L\<close> in the left case) gives the pointer
  read first. \<open>node->P\<close> is read after the slot write, as in the source. None of
  \<open>node\<close>'s own fields is written unless \<open>node\<close> is its own parent.
\<close>

definition treapDecouple_splice :: "treap \<Rightarrow> addr \<Rightarrow> treap" where
  "treapDecouple_splice s node =
     (let inPointer =
            (case P (mem s node) of
               None \<Rightarrow> RootSlot
             | Some p \<Rightarrow>
                 if treeKey (mem s node) < treeKey (mem s p) then LSlot p else RSlot p)
      in case R (mem s node) of
           Some r \<Rightarrow>
             (let s1 = slot_write s inPointer (Some r) in set_P s1 r (P (mem s1 node)))
         | None \<Rightarrow>
             (case L (mem s node) of
                Some l \<Rightarrow>
                  (let s1 = slot_write s inPointer (Some l) in set_P s1 l (P (mem s1 node)))
              | None \<Rightarrow> slot_write s inPointer None))"

definition treapDecouple :: "nat \<Rightarrow> treap \<Rightarrow> addr \<Rightarrow> treap option" where
  "treapDecouple n s node =
     (case treapDecouple_loop n s node of
        None \<Rightarrow> None
      | Some s1 \<Rightarrow> Some (treapDecouple_splice s1 node))"

subsection \<open>Repeated promotion\<close>

text \<open>
  The caller's loop of \<open>testTwo\<close>, which calls \<open>treapUsurpingFind\<close> for the same key again
  and again: \<open>j\<close> calls in a row, each with fuel \<open>n\<close>.
\<close>

fun usurp_times :: "nat \<Rightarrow> nat \<Rightarrow> treap \<Rightarrow> uint \<Rightarrow> treap option" where
  "usurp_times 0 n s key = Some s"
| "usurp_times (Suc j) n s key =
     (case treapUsurpingFind n s key of
        None \<Rightarrow> None
      | Some (s', cur) \<Rightarrow> usurp_times j n s' key)"

section \<open>The data-model invariants\<close>

text \<open>
  \<open>repr m p par t\<close>: in store \<open>m\<close>, pointer \<open>p\<close> is the root of a tree of nodes of shape \<open>t\<close>
  (a tree of addresses), whose root has parent field \<open>par\<close> and in which every child's
  parent field points back to its parent. With \<open>p\<close> the treap's root and \<open>par = None\<close>
  this is back-link consistency. A state has at most one shape (lemma \<open>repr_unique\<close>), so
  a statement about "the shape \<open>t\<close> of state \<open>s\<close>" is a statement about \<open>s\<close>.
  \<open>wf_treap\<close> is back-link consistency with search order and uniqueness of keys;
  \<open>treap_inv\<close> adds heap order.
\<close>

fun repr :: "(addr \<Rightarrow> treap_node) \<Rightarrow> addr option \<Rightarrow> addr option \<Rightarrow> addr tree \<Rightarrow> bool" where
  "repr m p par \<langle>\<rangle> = (p = None)"
| "repr m p par \<langle>l, a, r\<rangle> =
     (p = Some a \<and> P (m a) = par \<and> repr m (L (m a)) (Some a) l \<and> repr m (R (m a)) (Some a) r)"

text \<open>
  \<open>tree_links m p t\<close> is the same without the parent fields: following \<open>L\<close> and \<open>R\<close> from
  pointer \<open>p\<close> one walks a tree of shape \<open>t\<close>. It is all a downward search reads.
\<close>

fun tree_links :: "(addr \<Rightarrow> treap_node) \<Rightarrow> addr option \<Rightarrow> addr tree \<Rightarrow> bool" where
  "tree_links m p \<langle>\<rangle> = (p = None)"
| "tree_links m p \<langle>l, a, r\<rangle> =
     (p = Some a \<and> tree_links m (L (m a)) l \<and> tree_links m (R (m a)) r)"

definition keys_inorder :: "(addr \<Rightarrow> treap_node) \<Rightarrow> addr tree \<Rightarrow> uint list" where
  "keys_inorder m t = map (\<lambda>a. treeKey (m a)) (inorder t)"

text \<open>Search order and uniqueness: the in-order key sequence is strictly ascending.\<close>

definition search_order :: "(addr \<Rightarrow> treap_node) \<Rightarrow> addr tree \<Rightarrow> bool" where
  "search_order m t = sorted_wrt (<) (keys_inorder m t)"

text \<open>Heap order: no child has a priority above its parent's.\<close>

definition child_le :: "(addr \<Rightarrow> treap_node) \<Rightarrow> addr option \<Rightarrow> addr \<Rightarrow> bool" where
  "child_le m c a = (case c of None \<Rightarrow> True | Some b \<Rightarrow> heapKey (m b) \<le> heapKey (m a))"

fun heap_order :: "(addr \<Rightarrow> treap_node) \<Rightarrow> addr tree \<Rightarrow> bool" where
  "heap_order m \<langle>\<rangle> = True"
| "heap_order m \<langle>l, a, r\<rangle> =
     (child_le m (L (m a)) a \<and> child_le m (R (m a)) a \<and> heap_order m l \<and> heap_order m r)"

definition wf_treap :: "treap \<Rightarrow> addr tree \<Rightarrow> bool" where
  "wf_treap s t = (repr (mem s) (root s) None t \<and> search_order (mem s) t)"

definition treap_inv :: "treap \<Rightarrow> addr tree \<Rightarrow> bool" where
  "treap_inv s t = (wf_treap s t \<and> heap_order (mem s) t)"


section \<open>Trees of addresses\<close>

text \<open>
  The shape a state has is a tree of addresses; the functions below speak about such shapes.
  \<open>subtree_at t a\<close> is the subtree rooted at node \<open>a\<close>, \<open>replace_at a u t\<close> puts \<open>u\<close> in
  its place, \<open>depth_of t a\<close> is the number of edges from the root down to \<open>a\<close>.
\<close>

fun rootof :: "addr tree \<Rightarrow> addr option" where
  "rootof \<langle>\<rangle> = None"
| "rootof \<langle>l, a, r\<rangle> = Some a"

fun subtree_at :: "addr tree \<Rightarrow> addr \<Rightarrow> addr tree" where
  "subtree_at \<langle>\<rangle> a = \<langle>\<rangle>"
| "subtree_at \<langle>l, x, r\<rangle> a =
     (if x = a then \<langle>l, x, r\<rangle> else if a \<in> set_tree l then subtree_at l a else subtree_at r a)"

fun replace_at :: "addr \<Rightarrow> addr tree \<Rightarrow> addr tree \<Rightarrow> addr tree" where
  "replace_at a u \<langle>\<rangle> = \<langle>\<rangle>"
| "replace_at a u \<langle>l, x, r\<rangle> =
     (if x = a then u else \<langle>replace_at a u l, x, replace_at a u r\<rangle>)"

fun depth_of :: "addr tree \<Rightarrow> addr \<Rightarrow> nat" where
  "depth_of \<langle>\<rangle> a = 0"
| "depth_of \<langle>l, x, r\<rangle> a =
     (if x = a then 0 else if a \<in> set_tree l then Suc (depth_of l a) else Suc (depth_of r a))"

text \<open>Lengths of the right and of the left spine.\<close>

fun rspine :: "addr tree \<Rightarrow> nat" where
  "rspine \<langle>\<rangle> = 0"
| "rspine \<langle>l, a, r\<rangle> = Suc (rspine r)"

fun lspine :: "addr tree \<Rightarrow> nat" where
  "lspine \<langle>\<rangle> = 0"
| "lspine \<langle>l, a, r\<rangle> = Suc (lspine l)"

text \<open>The two rotations on shapes, and the shape after rotating \<open>pv\<close> above its parent \<open>rt\<close>.\<close>

fun rot_right :: "addr tree \<Rightarrow> addr tree" where
  "rot_right \<langle>\<langle>A, x, B\<rangle>, y, C\<rangle> = \<langle>A, x, \<langle>B, y, C\<rangle>\<rangle>"
| "rot_right t = t"

fun rot_left :: "addr tree \<Rightarrow> addr tree" where
  "rot_left \<langle>A, x, \<langle>B, y, C\<rangle>\<rangle> = \<langle>\<langle>A, x, B\<rangle>, y, C\<rangle>"
| "rot_left t = t"

definition rot_tree :: "addr \<Rightarrow> addr \<Rightarrow> addr tree \<Rightarrow> addr tree" where
  "rot_tree rt pv t =
     (let u = subtree_at t rt
      in replace_at rt (if rootof (left u) = Some pv then rot_right u else rot_left u) t)"

text \<open>
  The descent of \<open>treapAppend\<close> on shapes: \<open>seek_tree\<close> is the node the descent ends at,
  \<open>ins_tree\<close> the shape with the new node \<open>nn\<close> linked below it. Both go right on an equal
  key, as the code does. \<open>ins_order\<close> is the order the keys are in after linking a node
  \<open>nn\<close>: strict, except that a key equal to the new node's may precede it.
\<close>

fun seek_tree :: "(addr \<Rightarrow> treap_node) \<Rightarrow> uint \<Rightarrow> addr tree \<Rightarrow> addr option" where
  "seek_tree m k \<langle>\<rangle> = None"
| "seek_tree m k \<langle>l, a, r\<rangle> =
     (if k < treeKey (m a)
      then (case seek_tree m k l of None \<Rightarrow> Some a | Some c \<Rightarrow> Some c)
      else (case seek_tree m k r of None \<Rightarrow> Some a | Some c \<Rightarrow> Some c))"

fun ins_tree :: "(addr \<Rightarrow> treap_node) \<Rightarrow> uint \<Rightarrow> addr \<Rightarrow> addr tree \<Rightarrow> addr tree" where
  "ins_tree m k nn \<langle>\<rangle> = \<langle>\<langle>\<rangle>, nn, \<langle>\<rangle>\<rangle>"
| "ins_tree m k nn \<langle>l, a, r\<rangle> =
     (if k < treeKey (m a) then \<langle>ins_tree m k nn l, a, r\<rangle> else \<langle>l, a, ins_tree m k nn r\<rangle>)"

definition ins_order :: "(addr \<Rightarrow> treap_node) \<Rightarrow> addr \<Rightarrow> addr \<Rightarrow> addr \<Rightarrow> bool" where
  "ins_order m nn a b =
     (if b = nn then treeKey (m a) \<le> treeKey (m b) else treeKey (m a) < treeKey (m b))"

text \<open>The shape after splicing out a node \<open>x\<close> that has at most one child.\<close>

definition splice_tree :: "addr \<Rightarrow> addr tree \<Rightarrow> addr tree" where
  "splice_tree x t =
     (let u = subtree_at t x in replace_at x (if right u = \<langle>\<rangle> then left u else right u) t)"

text \<open>
  Bookkeeping for replacing the subtree of node \<open>a\<close> by one with root pointer \<open>q\<close>: a node
  outside that subtree keeps its parent field, and a child field of it changes only by being
  redirected from \<open>a\<close> to \<open>q\<close>.
\<close>

definition redirect :: "addr \<Rightarrow> addr option \<Rightarrow> addr option \<Rightarrow> addr option" where
  "redirect a q v = (if v = Some a then q else v)"

definition outside_ok ::
    "(addr \<Rightarrow> treap_node) \<Rightarrow> (addr \<Rightarrow> treap_node) \<Rightarrow> addr \<Rightarrow> addr option \<Rightarrow> addr \<Rightarrow> bool" where
  "outside_ok m m' a q b =
     (P (m' b) = P (m b) \<and> L (m' b) = redirect a q (L (m b)) \<and>
      R (m' b) = redirect a q (R (m b)))"

section \<open>Example states\<close>

definition node0 :: treap_node where
  "node0 = \<lparr>treeKey = 0, heapKey = 0, L = None, R = None, P = None\<rparr>"

text \<open>The empty treap (\<open>bob.root = NULL\<close> in the test drivers).\<close>

definition empty_treap :: treap where
  "empty_treap = \<lparr>root = None, mem = (\<lambda>_. node0)\<rparr>"

text \<open>Keys 5, 3, 8 with priorities 30, 10, 20 at addresses 1, 2, 3.\<close>

definition three_treap :: treap where
  "three_treap = \<lparr>root = Some 1, mem = (\<lambda>_. node0)
     (1 := \<lparr>treeKey = 5, heapKey = 30, L = Some 2, R = Some 3, P = None\<rparr>,
      2 := \<lparr>treeKey = 3, heapKey = 10, L = None, R = None, P = Some 1\<rparr>,
      3 := \<lparr>treeKey = 8, heapKey = 20, L = None, R = None, P = Some 1\<rparr>)\<rparr>"

text \<open>Keys 1, 2 with priorities 10, 5 at addresses 1, 2: the node with key 1 has a right child.\<close>

definition dup_treap :: treap where
  "dup_treap = \<lparr>root = Some 1, mem = (\<lambda>_. node0)
     (1 := \<lparr>treeKey = 1, heapKey = 10, L = None, R = Some 2, P = None\<rparr>,
      2 := \<lparr>treeKey = 2, heapKey = 5, L = None, R = None, P = Some 1\<rparr>)\<rparr>"

text \<open>
  Keys 10, 1, 2, 3, 20, 19, 18 with priorities 100, 90, 80, 70, 85, 75, 65 at addresses
  1 to 7: the root's left subtree is a chain to the right, its right subtree a chain to the
  left. The longest path has four nodes.
\<close>

definition seven_treap :: treap where
  "seven_treap = \<lparr>root = Some 1, mem = (\<lambda>_. node0)
     (1 := \<lparr>treeKey = 10, heapKey = 100, L = Some 2, R = Some 5, P = None\<rparr>,
      2 := \<lparr>treeKey = 1, heapKey = 90, L = None, R = Some 3, P = Some 1\<rparr>,
      3 := \<lparr>treeKey = 2, heapKey = 80, L = None, R = Some 4, P = Some 2\<rparr>,
      4 := \<lparr>treeKey = 3, heapKey = 70, L = None, R = None, P = Some 3\<rparr>,
      5 := \<lparr>treeKey = 20, heapKey = 85, L = Some 6, R = None, P = Some 1\<rparr>,
      6 := \<lparr>treeKey = 19, heapKey = 75, L = Some 7, R = None, P = Some 5\<rparr>,
      7 := \<lparr>treeKey = 18, heapKey = 65, L = None, R = None, P = Some 6\<rparr>)\<rparr>"

definition seven_shape :: "addr tree" where
  "seven_shape =
     Node (Node Leaf 2 (Node Leaf 3 (Node Leaf 4 Leaf))) 1
          (Node (Node (Node Leaf 7 Leaf) 6 Leaf) 5 Leaf)"

text \<open>
  The shape of the seven-node example after one and after two promotions of the node at
  address 4 (key 3), the end of the chain in the root's left subtree.
\<close>

definition seven_once_shape :: "addr tree" where
  "seven_once_shape =
     Node (Node Leaf 2 (Node (Node Leaf 3 Leaf) 4 Leaf)) 1
          (Node (Node (Node Leaf 7 Leaf) 6 Leaf) 5 Leaf)"

definition seven_twice_shape :: "addr tree" where
  "seven_twice_shape =
     Node (Node (Node Leaf 2 (Node Leaf 3 Leaf)) 4 Leaf) 1
          (Node (Node (Node Leaf 7 Leaf) 6 Leaf) 5 Leaf)"

text \<open>The shapes of the three-node and the two-node example, before and after.\<close>

definition three_shape :: "addr tree" where
  "three_shape = Node (Node Leaf 2 Leaf) 1 (Node Leaf 3 Leaf)"

definition three_promoted_shape :: "addr tree" where
  "three_promoted_shape = Node Leaf 2 (Node Leaf 1 (Node Leaf 3 Leaf))"

definition dup_shape :: "addr tree" where
  "dup_shape = Node Leaf 1 (Node Leaf 2 Leaf)"

definition dup_after_shape :: "addr tree" where
  "dup_after_shape = Node Leaf 1 (Node (Node Leaf 3 Leaf) 2 Leaf)"

section \<open>Evaluating the loops on numeral fuel\<close>

lemma treapFind_loop_numeral:
  "treapFind_loop (numeral k) m (Some c) key =
     (if key < treeKey (m c) then treapFind_loop (pred_numeral k) m (L (m c)) key
      else if key > treeKey (m c) then treapFind_loop (pred_numeral k) m (R (m c)) key
      else Some (Some c))"
  by (simp add: numeral_eq_Suc)

lemma treapAppend_seek_numeral:
  "treapAppend_seek (numeral k) m cur key =
     (case (if key < treeKey (m cur) then L (m cur) else R (m cur)) of
        None \<Rightarrow> Some cur
      | Some next \<Rightarrow> treapAppend_seek (pred_numeral k) m next key)"
  by (simp add: numeral_eq_Suc)

lemma treapAppend_bubble_numeral:
  "treapAppend_bubble (numeral k) s newNode =
     (case P (mem s newNode) of
        None \<Rightarrow> Some s
      | Some p \<Rightarrow>
          if heapKey (mem s newNode) > heapKey (mem s p)
          then treapAppend_bubble (pred_numeral k) (treapRotate s p newNode) newNode
          else Some s)"
  by (simp add: numeral_eq_Suc)

lemma treapDecouple_loop_numeral:
  "treapDecouple_loop (numeral k) s node =
     (case L (mem s node) of
        None \<Rightarrow> Some s
      | Some l \<Rightarrow>
          (case R (mem s node) of
             None \<Rightarrow> Some s
           | Some r \<Rightarrow>
               treapDecouple_loop (pred_numeral k)
                 (if heapKey (mem s l) > heapKey (mem s r)
                  then treapRotate s node l
                  else treapRotate s node r)
                 node))"
  by (simp add: numeral_eq_Suc)

lemmas fuel_numeral =
  treapFind_loop_numeral treapAppend_seek_numeral treapAppend_bubble_numeral
  treapDecouple_loop_numeral

lemmas model_defs =
  treapRotate_def rotate_right_part_def rotate_left_part_def rotate_common_def
  set_L_def set_R_def set_P_def set_heapKey_def treapFind_def treapUsurpingFind_def
  treapAppend_def treapAppend_link_def treapDecouple_def treapDecouple_splice_def Let_def
  fuel_numeral

lemmas shape_defs =
  three_shape_def three_promoted_shape_def dup_shape_def dup_after_shape_def seven_shape_def
  seven_once_shape_def seven_twice_shape_def

lemmas inv_defs =
  treap_inv_def wf_treap_def search_order_def keys_inorder_def child_le_def shape_defs

text \<open>Both example states are what \<open>treapAppend\<close> builds from the empty treap.\<close>

lemma three_treap_built:
  "\<exists>s1 s2. treapAppend 1 empty_treap 5 30 1 = Some (s1, 1) \<and>
           treapAppend 1 s1 3 10 2 = Some (s2, 2) \<and>
           treapAppend 1 s2 8 20 3 = Some (three_treap, 3)"
  by (simp add: model_defs empty_treap_def three_treap_def node0_def fun_eq_iff)

lemma dup_treap_built:
  "\<exists>s1. treapAppend 1 empty_treap 1 10 1 = Some (s1, 1) \<and>
        treapAppend 1 s1 2 5 2 = Some (dup_treap, 2)"
  by (simp add: model_defs empty_treap_def dup_treap_def node0_def fun_eq_iff)

section \<open>What treapRotate writes\<close>

lemma mem_set [simp]:
  "mem (set_L s a v) = (mem s)(a := (mem s a)\<lparr>L := v\<rparr>)"
  "mem (set_R s a v) = (mem s)(a := (mem s a)\<lparr>R := v\<rparr>)"
  "mem (set_P s a v) = (mem s)(a := (mem s a)\<lparr>P := v\<rparr>)"
  "mem (set_heapKey s a w) = (mem s)(a := (mem s a)\<lparr>heapKey := w\<rparr>)"
  "root (set_L s a v) = root s"
  "root (set_R s a v) = root s"
  "root (set_P s a v) = root s"
  "root (set_heapKey s a w) = root s"
  by (simp_all add: set_L_def set_R_def set_P_def set_heapKey_def)

lemma rotate_right_part_mem:
  assumes "rt \<noteq> pv" "R (mem s pv) \<noteq> Some rt" "R (mem s pv) \<noteq> Some pv"
  shows "mem (rotate_right_part s rt pv) a =
     (if a = rt then (mem s rt)\<lparr>L := R (mem s pv)\<rparr>
      else if a = pv then (mem s pv)\<lparr>R := Some rt\<rparr>
      else if R (mem s pv) = Some a then (mem s a)\<lparr>P := Some rt\<rparr>
      else mem s a)"
    and "root (rotate_right_part s rt pv) = root s"
  using assms by (cases "R (mem s pv)"; simp add: rotate_right_part_def Let_def; fail)+

lemma rotate_left_part_mem:
  assumes "rt \<noteq> pv" "L (mem s pv) \<noteq> Some rt" "L (mem s pv) \<noteq> Some pv"
  shows "mem (rotate_left_part s rt pv) a =
     (if a = rt then (mem s rt)\<lparr>R := L (mem s pv)\<rparr>
      else if a = pv then (mem s pv)\<lparr>L := Some rt\<rparr>
      else if L (mem s pv) = Some a then (mem s a)\<lparr>P := Some rt\<rparr>
      else mem s a)"
    and "root (rotate_left_part s rt pv) = root s"
  using assms by (cases "L (mem s pv)"; simp add: rotate_left_part_def Let_def; fail)+

lemma rotate_common_mem:
  assumes "rt \<noteq> pv" "P (mem s rt) \<noteq> Some pv" "P (mem s rt) \<noteq> Some rt"
  shows "mem (rotate_common s rt pv) a =
     (if a = rt then (mem s rt)\<lparr>P := Some pv\<rparr>
      else if a = pv then (mem s pv)\<lparr>P := P (mem s rt)\<rparr>
      else if P (mem s rt) = Some a then
        (if treeKey (mem s rt) < treeKey (mem s a) then (mem s a)\<lparr>L := Some pv\<rparr>
         else (mem s a)\<lparr>R := Some pv\<rparr>)
      else mem s a)"
    and "root (rotate_common s rt pv) = (if P (mem s rt) = None then Some pv else root s)"
  using assms by (cases "P (mem s rt)"; simp add: rotate_common_def Let_def; fail)+

lemma rotate_right_mem:
  assumes "treeKey (mem s pv) < treeKey (mem s rt)" "rt \<noteq> pv"
    "R (mem s pv) \<noteq> Some rt" "R (mem s pv) \<noteq> Some pv"
    "P (mem s rt) \<noteq> Some pv" "P (mem s rt) \<noteq> Some rt"
    "P (mem s rt) = None \<or> P (mem s rt) \<noteq> R (mem s pv)"
  shows "mem (treapRotate s rt pv) a =
     (if a = rt then (mem s rt)\<lparr>L := R (mem s pv), P := Some pv\<rparr>
      else if a = pv then (mem s pv)\<lparr>R := Some rt, P := P (mem s rt)\<rparr>
      else if R (mem s pv) = Some a then (mem s a)\<lparr>P := Some rt\<rparr>
      else if P (mem s rt) = Some a then
        (if treeKey (mem s rt) < treeKey (mem s a) then (mem s a)\<lparr>L := Some pv\<rparr>
         else (mem s a)\<lparr>R := Some pv\<rparr>)
      else mem s a)"
    and "root (treapRotate s rt pv) = (if P (mem s rt) = None then Some pv else root s)"
  using assms by (auto simp: treapRotate_def rotate_right_part_mem rotate_common_mem)

lemma rotate_left_mem:
  assumes "\<not> treeKey (mem s pv) < treeKey (mem s rt)" "rt \<noteq> pv"
    "L (mem s pv) \<noteq> Some rt" "L (mem s pv) \<noteq> Some pv"
    "P (mem s rt) \<noteq> Some pv" "P (mem s rt) \<noteq> Some rt"
    "P (mem s rt) = None \<or> P (mem s rt) \<noteq> L (mem s pv)"
  shows "mem (treapRotate s rt pv) a =
     (if a = rt then (mem s rt)\<lparr>R := L (mem s pv), P := Some pv\<rparr>
      else if a = pv then (mem s pv)\<lparr>L := Some rt, P := P (mem s rt)\<rparr>
      else if L (mem s pv) = Some a then (mem s a)\<lparr>P := Some rt\<rparr>
      else if P (mem s rt) = Some a then
        (if treeKey (mem s rt) < treeKey (mem s a) then (mem s a)\<lparr>L := Some pv\<rparr>
         else (mem s a)\<lparr>R := Some pv\<rparr>)
      else mem s a)"
    and "root (treapRotate s rt pv) = (if P (mem s rt) = None then Some pv else root s)"
  using assms by (auto simp: treapRotate_def rotate_left_part_mem rotate_common_mem)

lemma rotate_part_keys:
  "treeKey (mem (rotate_right_part s rt pv) a) = treeKey (mem s a)"
  "heapKey (mem (rotate_right_part s rt pv) a) = heapKey (mem s a)"
  "treeKey (mem (rotate_left_part s rt pv) a) = treeKey (mem s a)"
  "heapKey (mem (rotate_left_part s rt pv) a) = heapKey (mem s a)"
  "treeKey (mem (rotate_common s rt pv) a) = treeKey (mem s a)"
  "heapKey (mem (rotate_common s rt pv) a) = heapKey (mem s a)"
  by (simp_all add: rotate_right_part_def rotate_left_part_def rotate_common_def Let_def
      split: option.splits)

lemma rotate_keys:
  "treeKey (mem (treapRotate s rt pv) a) = treeKey (mem s a)"
  "heapKey (mem (treapRotate s rt pv) a) = heapKey (mem s a)"
  by (simp_all add: treapRotate_def rotate_part_keys)

section \<open>Shapes and the store\<close>

lemma repr_rootof: "repr m p par t \<Longrightarrow> p = rootof t"
  by (cases t) auto

lemma repr_frame:
  "(\<And>a. a \<in> set_tree t \<Longrightarrow> L (m' a) = L (m a) \<and> R (m' a) = R (m a) \<and> P (m' a) = P (m a))
   \<Longrightarrow> repr m' p par t = repr m p par t"
  by (induction t arbitrary: p par) auto

lemma repr_unique: "repr m p par t \<Longrightarrow> repr m p par' t' \<Longrightarrow> t = t'"
proof (induction t arbitrary: p par par' t')
  case Leaf then show ?case by (cases t') auto
next
  case (Node l a r) then show ?case by (cases t') auto
qed

lemma set_subtree_at: "set_tree (subtree_at t a) \<subseteq> set_tree t"
  by (induction t) auto

lemma subtree_at_notin: "a \<notin> set_tree t \<Longrightarrow> subtree_at t a = \<langle>\<rangle>"
  by (induction t) auto

lemma subtree_at_in: "a \<in> set_tree t \<Longrightarrow> \<exists>l r. subtree_at t a = \<langle>l, a, r\<rangle>"
  by (induction t) auto

lemma replace_at_notin: "a \<notin> set_tree t \<Longrightarrow> replace_at a u t = t"
  by (induction t) auto

lemma repr_subtree:
  "repr m p par t \<Longrightarrow> subtree_at t a = \<langle>l, a, r\<rangle> \<Longrightarrow>
   repr m (L (m a)) (Some a) l \<and> repr m (R (m a)) (Some a) r"
  by (induction t arbitrary: p par) (auto split: if_splits)

lemma repr_replace_aux:
  assumes "repr m p par t" "distinct (inorder t)"
    "a \<in> set_tree t \<Longrightarrow> repr m' q (P (m a)) u'"
    "\<And>b. b \<in> set_tree t \<Longrightarrow> b \<notin> set_tree (subtree_at t a) \<Longrightarrow> outside_ok m m' a q b"
  shows "repr m' (redirect a q p) par (replace_at a u' t)"
  using assms
proof (induction t arbitrary: p par)
  case Leaf
  then show ?case by (simp add: redirect_def)
next
  case (Node l x r)
  show ?case
  proof (cases "x = a")
    case True
    with Node.prems show ?thesis by (simp add: redirect_def)
  next
    case False
    have sl: "set_tree (subtree_at l a) \<subseteq> set_tree l"
      and sr: "set_tree (subtree_at r a) \<subseteq> set_tree r"
      by (rule set_subtree_at)+
    have dis: "x \<notin> set_tree l" "x \<notin> set_tree r" "set_tree l \<inter> set_tree r = {}"
      using Node.prems(2) by auto
    have px: "p = Some x" "P (m x) = par" "repr m (L (m x)) (Some x) l"
      "repr m (R (m x)) (Some x) r"
      using Node.prems(1) by auto
    have xout: "x \<notin> set_tree (subtree_at \<langle>l, x, r\<rangle> a)"
      using False sl sr dis by auto
    have okx: "outside_ok m m' a q x"
      using Node.prems(4)[of x] xout by simp
    have IHl: "repr m' (redirect a q (L (m x))) (Some x) (replace_at a u' l)"
    proof (rule Node.IH(1)[OF px(3)])
      show "distinct (inorder l)" using Node.prems(2) by simp
      show "repr m' q (P (m a)) u'" if "a \<in> set_tree l" using that Node.prems(3) by simp
      show "outside_ok m m' a q b" if "b \<in> set_tree l" "b \<notin> set_tree (subtree_at l a)" for b
      proof (rule Node.prems(4))
        show "b \<in> set_tree \<langle>l, x, r\<rangle>" using that by simp
        show "b \<notin> set_tree (subtree_at \<langle>l, x, r\<rangle> a)"
          using that False sr dis by auto
      qed
    qed
    have IHr: "repr m' (redirect a q (R (m x))) (Some x) (replace_at a u' r)"
    proof (rule Node.IH(2)[OF px(4)])
      show "distinct (inorder r)" using Node.prems(2) by simp
      show "repr m' q (P (m a)) u'" if "a \<in> set_tree r" using that Node.prems(3) by simp
      show "outside_ok m m' a q b" if "b \<in> set_tree r" "b \<notin> set_tree (subtree_at r a)" for b
      proof (rule Node.prems(4))
        show "b \<in> set_tree \<langle>l, x, r\<rangle>" using that by simp
        show "b \<notin> set_tree (subtree_at \<langle>l, x, r\<rangle> a)"
          using that False sl dis by auto
      qed
    qed
    show ?thesis
      using False px okx IHl IHr by (simp add: redirect_def outside_ok_def)
  qed
qed

subsection \<open>Parents and children\<close>

lemma distinct_subtree_at: "distinct (inorder t) \<Longrightarrow> distinct (inorder (subtree_at t a))"
  by (induction t) auto

lemma repr_parent:
  "repr m p par t \<Longrightarrow> distinct (inorder t) \<Longrightarrow> a \<in> set_tree t \<Longrightarrow>
   (p = Some a \<and> P (m a) = par) \<or>
   (p \<noteq> Some a \<and> (\<exists>g. P (m a) = Some g \<and> g \<in> set_tree t \<and> g \<notin> set_tree (subtree_at t a) \<and>
       (L (m g) = Some a \<or> R (m g) = Some a)))"
proof (induction t arbitrary: p par)
  case Leaf
  then show ?case by simp
next
  case (Node l x r)
  show ?case
  proof (cases "x = a")
    case True
    with Node.prems show ?thesis by simp
  next
    case False
    have sl: "set_tree (subtree_at l a) \<subseteq> set_tree l"
      and sr: "set_tree (subtree_at r a) \<subseteq> set_tree r"
      by (rule set_subtree_at)+
    have dis: "x \<notin> set_tree l" "x \<notin> set_tree r" "set_tree l \<inter> set_tree r = {}"
      using Node.prems(2) by auto
    have px: "p = Some x" "P (m x) = par" "repr m (L (m x)) (Some x) l"
      "repr m (R (m x)) (Some x) r"
      using Node.prems(1) by auto
    show ?thesis
    proof (cases "a \<in> set_tree l")
      case True
      from Node.IH(1)[OF px(3) _ True] Node.prems(2)
      show ?thesis using False True px(1) sl dis by auto
    next
      case ar: False
      then have ar': "a \<in> set_tree r" using Node.prems(3) False by simp
      from Node.IH(2)[OF px(4) _ ar'] Node.prems(2)
      show ?thesis using False ar px(1) sr dis by auto
    qed
  qed
qed

lemma repr_child:
  assumes "repr m p par t" "b \<in> set_tree t" "L (m b) = Some c \<or> R (m b) = Some c"
  shows "c \<in> set_tree (subtree_at t b) \<and> P (m c) = Some b"
proof -
  obtain l r where u: "subtree_at t b = \<langle>l, b, r\<rangle>" using subtree_at_in[OF assms(2)] by blast
  from repr_subtree[OF assms(1) u] have "repr m (L (m b)) (Some b) l" "repr m (R (m b)) (Some b) r"
    by auto
  then show ?thesis using assms(3) u by (cases l; cases r; auto)
qed

lemma repr_children_differ:
  assumes "repr m p par t" "distinct (inorder t)" "b \<in> set_tree t" "L (m b) = Some c"
  shows "R (m b) \<noteq> Some c" "c \<noteq> b"
proof -
  obtain l r where u: "subtree_at t b = \<langle>l, b, r\<rangle>" using subtree_at_in[OF assms(3)] by blast
  from repr_subtree[OF assms(1) u] have "repr m (L (m b)) (Some b) l" "repr m (R (m b)) (Some b) r"
    by auto
  moreover have "distinct (inorder \<langle>l, b, r\<rangle>)" using distinct_subtree_at[OF assms(2), of b] u by simp
  ultimately show "R (m b) \<noteq> Some c" "c \<noteq> b" using assms(4) by (cases l; cases r; auto)+
qed

lemma repr_new_parent:
  assumes "repr m p par t" "distinct (inorder t)"
    "\<And>a. a \<in> set_tree t \<Longrightarrow> L (m' a) = L (m a) \<and> R (m' a) = R (m a) \<and>
        P (m' a) = (if p = Some a then par' else P (m a))"
  shows "repr m' p par' t"
proof (cases t)
  case Leaf
  then show ?thesis using assms(1) by simp
next
  case (Node l a r)
  have "repr m' (L (m a)) (Some a) l = repr m (L (m a)) (Some a) l"
    using assms Node by (intro repr_frame) auto
  moreover have "repr m' (R (m a)) (Some a) r = repr m (R (m a)) (Some a) r"
    using assms Node by (intro repr_frame) auto
  ultimately show ?thesis using assms Node by auto
qed

section \<open>treapRotate on a represented tree\<close>

lemma rootof_in: "rootof t = Some a \<Longrightarrow> a \<in> set_tree t"
  by (cases t) auto

lemma rotate_repr_right:
  assumes rep: "repr (mem s) (root s) None t" and dis: "distinct (inorder t)"
    and rt: "rt \<in> set_tree t" and lc: "L (mem s rt) = Some pv"
    and k: "treeKey (mem s pv) < treeKey (mem s rt)"
    and H3: "\<And>g. P (mem s rt) = Some g \<Longrightarrow>
               (treeKey (mem s rt) < treeKey (mem s g) \<longleftrightarrow> L (mem s g) = Some rt)"
  shows "repr (mem (treapRotate s rt pv)) (root (treapRotate s rt pv)) None (rot_tree rt pv t)"
proof -
  define m where "m = mem s"
  define m' where "m' = mem (treapRotate s rt pv)"
  obtain ul ur where u: "subtree_at t rt = \<langle>ul, rt, ur\<rangle>"
    using subtree_at_in[OF rt] by blast
  have ru: "repr m (L (m rt)) (Some rt) ul" "repr m (R (m rt)) (Some rt) ur"
    using repr_subtree[OF rep u] by (simp_all add: m_def)
  have du: "distinct (inorder \<langle>ul, rt, ur\<rangle>)"
    using distinct_subtree_at[OF dis, of rt] u by simp
  obtain A B where ul: "ul = \<langle>A, pv, B\<rangle>"
    using ru(1) lc by (cases ul) (auto simp: m_def)
  have rpv: "P (m pv) = Some rt" "repr m (L (m pv)) (Some pv) A" "repr m (R (m pv)) (Some pv) B"
    using ru(1) lc ul by (auto simp: m_def)
  have rB: "R (m pv) = rootof B" using rpv(3) by (rule repr_rootof)
  have rur: "R (m rt) = rootof ur" using ru(2) by (rule repr_rootof)
  have rA: "L (m pv) = rootof A" using rpv(2) by (rule repr_rootof)
  have d: "rt \<noteq> pv" "rt \<notin> set_tree A" "rt \<notin> set_tree B" "rt \<notin> set_tree ur"
    "pv \<notin> set_tree A" "pv \<notin> set_tree B" "pv \<notin> set_tree ur"
    "set_tree A \<inter> set_tree B = {}" "set_tree A \<inter> set_tree ur = {}" "set_tree B \<inter> set_tree ur = {}"
    using du ul by auto
  have rep': "repr m (root s) None t" using rep by (simp add: m_def)
  have H3': "P (m rt) = Some g \<Longrightarrow> (treeKey (m rt) < treeKey (m g) \<longleftrightarrow> L (m g) = Some rt)" for g
    using H3[of g] by (simp add: m_def)
  have par: "(root s = Some rt \<and> P (m rt) = None) \<or>
     (root s \<noteq> Some rt \<and> (\<exists>g. P (m rt) = Some g \<and> g \<in> set_tree t \<and>
         g \<notin> set_tree \<langle>ul, rt, ur\<rangle> \<and> (L (m g) = Some rt \<or> R (m g) = Some rt)))"
    using repr_parent[OF rep dis rt] u by (simp add: m_def)
  have gout: "P (m rt) = Some g \<Longrightarrow> g \<notin> set_tree \<langle>ul, rt, ur\<rangle>" for g
    using par by auto
  have inB: "R (m pv) = Some a \<Longrightarrow> a \<in> set_tree B" for a
    using rB rootof_in[of B a] by simp
  have gout': "P (m rt) = Some g \<Longrightarrow>
      g \<noteq> rt \<and> g \<noteq> pv \<and> g \<notin> set_tree A \<and> g \<notin> set_tree B \<and> g \<notin> set_tree ur" for g
    using gout[of g] ul by auto
  have pre5: "P (m rt) = None \<or> P (m rt) \<noteq> R (m pv)"
  proof (cases "P (m rt)")
    case None
    then show ?thesis by simp
  next
    case (Some g)
    then show ?thesis using gout'[of g] inB[of g] by auto
  qed
  have pre: "R (m pv) \<noteq> Some rt" "R (m pv) \<noteq> Some pv" "P (m rt) \<noteq> Some pv" "P (m rt) \<noteq> Some rt"
    using d by (auto dest: inB gout')
  note pre = pre pre5
  note eq = rotate_right_mem[OF k d(1) pre[unfolded m_def], folded m_def m'_def]
  have mpv: "m' pv = (m pv)\<lparr>R := Some rt, P := P (m rt)\<rparr>"
    using d(1) by (simp add: eq(1))
  have mrt: "m' rt = (m rt)\<lparr>L := R (m pv), P := Some pv\<rparr>"
    by (simp add: eq(1))
  have mA: "m' a = m a" if "a \<in> set_tree A" for a
    using that d by (auto simp: eq(1) dest: inB gout')
  have mur: "m' a = m a" if "a \<in> set_tree ur" for a
    using that d by (auto simp: eq(1) dest: inB gout')
  have mB: "L (m' a) = L (m a) \<and> R (m' a) = R (m a) \<and>
            P (m' a) = (if R (m pv) = Some a then Some rt else P (m a))" if "a \<in> set_tree B" for a
    using that d by (auto simp: eq(1) dest: inB gout')
  have i: "repr m' (Some pv) (P (m rt)) \<langle>A, pv, \<langle>B, rt, ur\<rangle>\<rangle>"
  proof -
    have "repr m' (L (m pv)) (Some pv) A"
      using rpv(2) mA by (subst repr_frame[of A m' m]) auto
    moreover have "repr m' (R (m rt)) (Some rt) ur"
      using ru(2) mur by (subst repr_frame[of ur m' m]) auto
    moreover have "repr m' (R (m pv)) (Some rt) B"
    proof (rule repr_new_parent[OF rpv(3)])
      show "distinct (inorder B)" using du ul by simp
      fix a assume "a \<in> set_tree B"
      then show "L (m' a) = L (m a) \<and> R (m' a) = R (m a) \<and>
            P (m' a) = (if R (m pv) = Some a then Some rt else P (m a))" by (rule mB)
    qed
    ultimately show ?thesis by (simp add: mpv mrt)
  qed
  have out: "outside_ok m m' rt (Some pv) b"
    if b: "b \<in> set_tree t" "b \<notin> set_tree (subtree_at t rt)" for b
  proof -
    have bn: "b \<noteq> rt" "b \<noteq> pv" "R (m pv) \<noteq> Some b"
      using b u ul by (auto dest: inB)
    show ?thesis
    proof (cases "P (m rt) = Some b")
      case True
      have lr: "L (m b) = Some rt \<or> R (m b) = Some rt" using par True by auto
      have nb: "\<not> (L (m b) = Some rt \<and> R (m b) = Some rt)"
        using repr_children_differ(1)[OF rep' dis b(1), of rt] by auto
      show ?thesis using True bn lr nb H3'[of b] by (auto simp: eq(1) outside_ok_def redirect_def)
    next
      case False
      have "L (m b) \<noteq> Some rt" "R (m b) \<noteq> Some rt"
        using repr_child[OF rep' b(1), of rt] False by auto
      then show ?thesis using False bn by (auto simp: eq(1) outside_ok_def redirect_def)
    qed
  qed
  have "repr m' (redirect rt (Some pv) (root s)) None (replace_at rt \<langle>A, pv, \<langle>B, rt, ur\<rangle>\<rangle> t)"
    using rep' dis i out by (rule repr_replace_aux)
  moreover have "redirect rt (Some pv) (root s) = root (treapRotate s rt pv)"
    using par by (auto simp: eq(2) redirect_def)
  moreover have "rot_tree rt pv t = replace_at rt \<langle>A, pv, \<langle>B, rt, ur\<rangle>\<rangle> t"
    by (simp add: rot_tree_def u ul)
  ultimately show ?thesis by (simp add: m'_def)
qed

lemma rotate_repr_left:
  assumes rep: "repr (mem s) (root s) None t" and dis: "distinct (inorder t)"
    and rt: "rt \<in> set_tree t" and rc: "R (mem s rt) = Some pv"
    and k: "\<not> treeKey (mem s pv) < treeKey (mem s rt)"
    and H3: "\<And>g. P (mem s rt) = Some g \<Longrightarrow>
               (treeKey (mem s rt) < treeKey (mem s g) \<longleftrightarrow> L (mem s g) = Some rt)"
  shows "repr (mem (treapRotate s rt pv)) (root (treapRotate s rt pv)) None (rot_tree rt pv t)"
proof -
  define m where "m = mem s"
  define m' where "m' = mem (treapRotate s rt pv)"
  obtain ul ur where u: "subtree_at t rt = \<langle>ul, rt, ur\<rangle>"
    using subtree_at_in[OF rt] by blast
  have ru: "repr m (L (m rt)) (Some rt) ul" "repr m (R (m rt)) (Some rt) ur"
    using repr_subtree[OF rep u] by (simp_all add: m_def)
  have du: "distinct (inorder \<langle>ul, rt, ur\<rangle>)"
    using distinct_subtree_at[OF dis, of rt] u by simp
  obtain B C where ur: "ur = \<langle>B, pv, C\<rangle>"
    using ru(2) rc by (cases ur) (auto simp: m_def)
  have rpv: "P (m pv) = Some rt" "repr m (L (m pv)) (Some pv) B" "repr m (R (m pv)) (Some pv) C"
    using ru(2) rc ur by (auto simp: m_def)
  have rB: "L (m pv) = rootof B" using rpv(2) by (rule repr_rootof)
  have d: "rt \<noteq> pv" "rt \<notin> set_tree ul" "rt \<notin> set_tree B" "rt \<notin> set_tree C"
    "pv \<notin> set_tree ul" "pv \<notin> set_tree B" "pv \<notin> set_tree C"
    "set_tree ul \<inter> set_tree B = {}" "set_tree ul \<inter> set_tree C = {}" "set_tree B \<inter> set_tree C = {}"
    using du ur by auto
  have rep': "repr m (root s) None t" using rep by (simp add: m_def)
  have H3': "P (m rt) = Some g \<Longrightarrow> (treeKey (m rt) < treeKey (m g) \<longleftrightarrow> L (m g) = Some rt)" for g
    using H3[of g] by (simp add: m_def)
  have par: "(root s = Some rt \<and> P (m rt) = None) \<or>
     (root s \<noteq> Some rt \<and> (\<exists>g. P (m rt) = Some g \<and> g \<in> set_tree t \<and>
         g \<notin> set_tree \<langle>ul, rt, ur\<rangle> \<and> (L (m g) = Some rt \<or> R (m g) = Some rt)))"
    using repr_parent[OF rep dis rt] u by (simp add: m_def)
  have gout: "P (m rt) = Some g \<Longrightarrow> g \<notin> set_tree \<langle>ul, rt, ur\<rangle>" for g
    using par by auto
  have inB: "L (m pv) = Some a \<Longrightarrow> a \<in> set_tree B" for a
    using rB rootof_in[of B a] by simp
  have gout': "P (m rt) = Some g \<Longrightarrow>
      g \<noteq> rt \<and> g \<noteq> pv \<and> g \<notin> set_tree ul \<and> g \<notin> set_tree B \<and> g \<notin> set_tree C" for g
    using gout[of g] ur by auto
  have pre5: "P (m rt) = None \<or> P (m rt) \<noteq> L (m pv)"
  proof (cases "P (m rt)")
    case None
    then show ?thesis by simp
  next
    case (Some g)
    then show ?thesis using gout'[of g] inB[of g] by auto
  qed
  have pre: "L (m pv) \<noteq> Some rt" "L (m pv) \<noteq> Some pv" "P (m rt) \<noteq> Some pv" "P (m rt) \<noteq> Some rt"
    using d by (auto dest: inB gout')
  note pre = pre pre5
  note eq = rotate_left_mem[OF k[unfolded m_def] d(1) pre[unfolded m_def], folded m_def m'_def]
  have mpv: "m' pv = (m pv)\<lparr>L := Some rt, P := P (m rt)\<rparr>"
    using d(1) by (simp add: eq(1))
  have mrt: "m' rt = (m rt)\<lparr>R := L (m pv), P := Some pv\<rparr>"
    by (simp add: eq(1))
  have mul: "m' a = m a" if "a \<in> set_tree ul" for a
    using that d by (auto simp: eq(1) dest: inB gout')
  have mC: "m' a = m a" if "a \<in> set_tree C" for a
    using that d by (auto simp: eq(1) dest: inB gout')
  have mB: "L (m' a) = L (m a) \<and> R (m' a) = R (m a) \<and>
            P (m' a) = (if L (m pv) = Some a then Some rt else P (m a))" if "a \<in> set_tree B" for a
    using that d by (auto simp: eq(1) dest: inB gout')
  have i: "repr m' (Some pv) (P (m rt)) \<langle>\<langle>ul, rt, B\<rangle>, pv, C\<rangle>"
  proof -
    have "repr m' (L (m rt)) (Some rt) ul"
      using ru(1) mul by (subst repr_frame[of ul m' m]) auto
    moreover have "repr m' (R (m pv)) (Some pv) C"
      using rpv(3) mC by (subst repr_frame[of C m' m]) auto
    moreover have "repr m' (L (m pv)) (Some rt) B"
    proof (rule repr_new_parent[OF rpv(2)])
      show "distinct (inorder B)" using du ur by simp
      fix a assume "a \<in> set_tree B"
      then show "L (m' a) = L (m a) \<and> R (m' a) = R (m a) \<and>
            P (m' a) = (if L (m pv) = Some a then Some rt else P (m a))" by (rule mB)
    qed
    ultimately show ?thesis by (simp add: mpv mrt)
  qed
  have out: "outside_ok m m' rt (Some pv) b"
    if b: "b \<in> set_tree t" "b \<notin> set_tree (subtree_at t rt)" for b
  proof -
    have bn: "b \<noteq> rt" "b \<noteq> pv" "L (m pv) \<noteq> Some b"
      using b u ur by (auto dest: inB)
    show ?thesis
    proof (cases "P (m rt) = Some b")
      case True
      have lr: "L (m b) = Some rt \<or> R (m b) = Some rt" using par True by auto
      have nb: "\<not> (L (m b) = Some rt \<and> R (m b) = Some rt)"
        using repr_children_differ(1)[OF rep' dis b(1), of rt] by auto
      show ?thesis using True bn lr nb H3'[of b] by (auto simp: eq(1) outside_ok_def redirect_def)
    next
      case False
      have "L (m b) \<noteq> Some rt" "R (m b) \<noteq> Some rt"
        using repr_child[OF rep' b(1), of rt] False by auto
      then show ?thesis using False bn by (auto simp: eq(1) outside_ok_def redirect_def)
    qed
  qed
  have "repr m' (redirect rt (Some pv) (root s)) None (replace_at rt \<langle>\<langle>ul, rt, B\<rangle>, pv, C\<rangle> t)"
    using rep' dis i out by (rule repr_replace_aux)
  moreover have "redirect rt (Some pv) (root s) = root (treapRotate s rt pv)"
    using par by (auto simp: eq(2) redirect_def)
  moreover have "rootof (left (subtree_at t rt)) \<noteq> Some pv"
    using u d(5) rootof_in[of ul pv] by auto
  then have "rot_tree rt pv t = replace_at rt \<langle>\<langle>ul, rt, B\<rangle>, pv, C\<rangle> t"
    by (simp add: rot_tree_def u ur)
  ultimately show ?thesis by (simp add: m'_def)
qed

lemma rotate_repr:
  assumes rep: "repr (mem s) (root s) None t" and dis: "distinct (inorder t)"
    and rt: "rt \<in> set_tree t"
    and ch: "L (mem s rt) = Some pv \<or> R (mem s rt) = Some pv"
    and H2: "treeKey (mem s pv) < treeKey (mem s rt) \<longleftrightarrow> L (mem s rt) = Some pv"
    and H3: "\<And>g. P (mem s rt) = Some g \<Longrightarrow>
               (treeKey (mem s rt) < treeKey (mem s g) \<longleftrightarrow> L (mem s g) = Some rt)"
  shows "repr (mem (treapRotate s rt pv)) (root (treapRotate s rt pv)) None (rot_tree rt pv t)"
proof (cases "treeKey (mem s pv) < treeKey (mem s rt)")
  case True
  then have "L (mem s rt) = Some pv" using H2 by simp
  then show ?thesis using rotate_repr_right[OF rep dis rt _ True H3] by simp
next
  case False
  then have "R (mem s rt) = Some pv" using H2 ch by simp
  then show ?thesis using rotate_repr_left[OF rep dis rt _ False H3] by simp
qed

subsection \<open>In-order sequence and search order\<close>

text \<open>The in-order sequence around a subtree.\<close>

lemma inorder_context:
  assumes "distinct (inorder t)" "a \<in> set_tree t"
  shows "\<exists>xs ys. inorder t = xs @ inorder (subtree_at t a) @ ys \<and>
           (\<forall>u'. inorder (replace_at a u' t) = xs @ inorder u' @ ys)"
  using assms
proof (induction t)
  case Leaf
  then show ?case by simp
next
  case (Node l x r)
  show ?case
  proof (cases "x = a")
    case True
    then have "inorder \<langle>l, x, r\<rangle> = [] @ inorder (subtree_at \<langle>l, x, r\<rangle> a) @ [] \<and>
           (\<forall>u'. inorder (replace_at a u' \<langle>l, x, r\<rangle>) = [] @ inorder u' @ [])" by simp
    then show ?thesis by blast
  next
    case False
    show ?thesis
    proof (cases "a \<in> set_tree l")
      case True
      then have ar: "a \<notin> set_tree r" using Node.prems(1) by auto
      from Node.IH(1) True Node.prems(1) obtain xs ys where
        h: "inorder l = xs @ inorder (subtree_at l a) @ ys"
           "\<And>u'. inorder (replace_at a u' l) = xs @ inorder u' @ ys" by auto
      have "inorder \<langle>l, x, r\<rangle> = xs @ inorder (subtree_at \<langle>l, x, r\<rangle> a) @ (ys @ [x] @ inorder r) \<and>
           (\<forall>u'. inorder (replace_at a u' \<langle>l, x, r\<rangle>) = xs @ inorder u' @ (ys @ [x] @ inorder r))"
        using False True h replace_at_notin[OF ar] by simp
      then show ?thesis by blast
    next
      case al: False
      then have ar: "a \<in> set_tree r" using Node.prems(2) False by simp
      from Node.IH(2) ar Node.prems(1) obtain xs ys where
        h: "inorder r = xs @ inorder (subtree_at r a) @ ys"
           "\<And>u'. inorder (replace_at a u' r) = xs @ inorder u' @ ys" by auto
      have "inorder \<langle>l, x, r\<rangle> = (inorder l @ [x] @ xs) @ inorder (subtree_at \<langle>l, x, r\<rangle> a) @ ys \<and>
           (\<forall>u'. inorder (replace_at a u' \<langle>l, x, r\<rangle>) = (inorder l @ [x] @ xs) @ inorder u' @ ys)"
        using False al h replace_at_notin[OF al] by simp
      then show ?thesis by blast
    qed
  qed
qed

lemma inorder_replace_same:
  assumes "distinct (inorder t)" "a \<in> set_tree t" "inorder u' = inorder (subtree_at t a)"
  shows "inorder (replace_at a u' t) = inorder t"
  using inorder_context[OF assms(1,2)] assms(3) by auto

lemma inorder_rot_right: "inorder (rot_right u) = inorder u"
  by (induction u rule: rot_right.induct) auto

lemma inorder_rot_left: "inorder (rot_left u) = inorder u"
  by (induction u rule: rot_left.induct) auto

lemma inorder_rot_tree:
  "distinct (inorder t) \<Longrightarrow> rt \<in> set_tree t \<Longrightarrow> inorder (rot_tree rt pv t) = inorder t"
  by (simp add: rot_tree_def Let_def inorder_replace_same inorder_rot_right inorder_rot_left)

lemma set_rot_tree:
  "distinct (inorder t) \<Longrightarrow> rt \<in> set_tree t \<Longrightarrow> set_tree (rot_tree rt pv t) = set_tree t"
  using inorder_rot_tree[of t rt pv] by (metis set_inorder)

lemma ordered_sides:
  "sorted_wrt \<rho> (inorder t) \<Longrightarrow> subtree_at t a = \<langle>l, a, r\<rangle> \<Longrightarrow>
   (\<forall>x \<in> set_tree l. \<rho> x a) \<and> (\<forall>x \<in> set_tree r. \<rho> a x)"
  by (induction t) (auto simp: sorted_wrt_append split: if_splits)

lemma repr_child_side:
  assumes "repr m p par t" "subtree_at t b = \<langle>l, b, r\<rangle>"
  shows "(L (m b) = Some c \<longrightarrow> c \<in> set_tree l) \<and> (R (m b) = Some c \<longrightarrow> c \<in> set_tree r)"
proof -
  from repr_subtree[OF assms] have "L (m b) = rootof l" "R (m b) = rootof r"
    by (auto dest: repr_rootof)
  then show ?thesis by (auto dest: rootof_in)
qed

lemma rotate_repr_ord:
  assumes rep: "repr (mem s) (root s) None t" and dis: "distinct (inorder t)"
    and rt: "rt \<in> set_tree t"
    and ch: "L (mem s rt) = Some pv \<or> R (mem s rt) = Some pv"
    and ord: "sorted_wrt \<rho> (inorder t)"
    and c1: "\<rho> pv rt \<Longrightarrow> treeKey (mem s pv) < treeKey (mem s rt)"
    and c2: "\<rho> rt pv \<Longrightarrow> \<not> treeKey (mem s pv) < treeKey (mem s rt)"
    and c3: "\<And>g. P (mem s rt) = Some g \<Longrightarrow>
               (\<rho> rt g \<longrightarrow> treeKey (mem s rt) < treeKey (mem s g)) \<and>
               (\<rho> g rt \<longrightarrow> \<not> treeKey (mem s rt) < treeKey (mem s g))"
  shows "repr (mem (treapRotate s rt pv)) (root (treapRotate s rt pv)) None (rot_tree rt pv t)"
proof (rule rotate_repr[OF rep dis rt ch])
  obtain ul ur where u: "subtree_at t rt = \<langle>ul, rt, ur\<rangle>"
    using subtree_at_in[OF rt] by blast
  note sides = ordered_sides[OF ord u] repr_child_side[OF rep u, of pv]
  show "treeKey (mem s pv) < treeKey (mem s rt) \<longleftrightarrow> L (mem s rt) = Some pv"
    using sides ch c1 c2 by blast
next
  fix g assume g: "P (mem s rt) = Some g"
  from repr_parent[OF rep dis rt] g have gt: "g \<in> set_tree t"
    and lr: "L (mem s g) = Some rt \<or> R (mem s g) = Some rt" by auto
  obtain gl gr where u: "subtree_at t g = \<langle>gl, g, gr\<rangle>"
    using subtree_at_in[OF gt] by blast
  note sides = ordered_sides[OF ord u] repr_child_side[OF rep u, of rt]
  show "treeKey (mem s rt) < treeKey (mem s g) \<longleftrightarrow> L (mem s g) = Some rt"
    using sides lr c3[OF g] by blast
qed

lemma search_order_distinct: "search_order m t \<Longrightarrow> distinct (inorder t)"
  unfolding search_order_def keys_inorder_def
  by (metis distinct_map strict_sorted_iff sorted_wrt_map distinct_map)

lemma search_order_wrt:
  "search_order m t = sorted_wrt (\<lambda>a b. treeKey (m a) < treeKey (m b)) (inorder t)"
  by (simp add: search_order_def keys_inorder_def sorted_wrt_map)

lemma rotate_wf:
  assumes wf: "wf_treap s t" and rt: "rt \<in> set_tree t"
    and ch: "L (mem s rt) = Some pv \<or> R (mem s rt) = Some pv"
  shows "wf_treap (treapRotate s rt pv) (rot_tree rt pv t)"
proof -
  have rep: "repr (mem s) (root s) None t" and so: "search_order (mem s) t"
    using wf by (simp_all add: wf_treap_def)
  have dis: "distinct (inorder t)" using so by (rule search_order_distinct)
  have "repr (mem (treapRotate s rt pv)) (root (treapRotate s rt pv)) None (rot_tree rt pv t)"
    using so by (intro rotate_repr_ord[OF rep dis rt ch, where \<rho> = "\<lambda>a b. treeKey (mem s a) < treeKey (mem s b)"])
      (auto simp: search_order_wrt)
  moreover have "search_order (mem (treapRotate s rt pv)) (rot_tree rt pv t)"
    using so by (simp add: search_order_wrt rotate_keys inorder_rot_tree[OF dis rt])
  ultimately show ?thesis by (simp add: wf_treap_def)
qed

section \<open>Depth and subtrees under replacement\<close>

lemma depth_lt_height: "a \<in> set_tree t \<Longrightarrow> depth_of t a < height t"
  by (induction t) (auto simp: less_Suc_eq_le max_def)

lemma depth_in_subtree:
  "distinct (inorder t) \<Longrightarrow> a \<in> set_tree t \<Longrightarrow> b \<in> set_tree (subtree_at t a) \<Longrightarrow>
   depth_of t b = depth_of t a + depth_of (subtree_at t a) b"
proof (induction t)
  case Leaf
  then show ?case by simp
next
  case (Node l x r)
  have sl: "set_tree (subtree_at l a) \<subseteq> set_tree l"
    and sr: "set_tree (subtree_at r a) \<subseteq> set_tree r"
    by (rule set_subtree_at)+
  show ?case
  proof (cases "x = a")
    case True
    then show ?thesis by simp
  next
    case False
    show ?thesis
    proof (cases "a \<in> set_tree l")
      case True
      then show ?thesis using Node False sl by auto
    next
      case al: False
      then show ?thesis using Node False sr by auto
    qed
  qed
qed

lemma set_replace_in: "a \<in> set_tree t \<Longrightarrow> set_tree u' \<subseteq> set_tree (replace_at a u' t)"
  by (induction t) auto

lemma depth_replace:
  "distinct (inorder t) \<Longrightarrow> a \<in> set_tree t \<Longrightarrow> b \<in> set_tree u' \<Longrightarrow>
   set_tree u' \<inter> set_tree t \<subseteq> set_tree (subtree_at t a) \<Longrightarrow>
   depth_of (replace_at a u' t) b = depth_of t a + depth_of u' b"
proof (induction t)
  case Leaf
  then show ?case by simp
next
  case (Node l x r)
  have sl: "set_tree (subtree_at l a) \<subseteq> set_tree l"
    and sr: "set_tree (subtree_at r a) \<subseteq> set_tree r"
    by (rule set_subtree_at)+
  show ?case
  proof (cases "x = a")
    case True
    then show ?thesis by simp
  next
    case False
    have dis: "x \<notin> set_tree l" "x \<notin> set_tree r" "set_tree l \<inter> set_tree r = {}"
      using Node.prems(1) by auto
    show ?thesis
    proof (cases "a \<in> set_tree l")
      case True
      then have ar: "a \<notin> set_tree r" using dis by auto
      have sub: "set_tree u' \<inter> set_tree \<langle>l, x, r\<rangle> \<subseteq> set_tree (subtree_at l a)"
        using Node.prems(4) False True by simp
      have bx: "b \<noteq> x" using sub Node.prems(3) sl dis by auto
      have bin: "b \<in> set_tree (replace_at a u' l)"
        using set_replace_in[OF True, of u'] Node.prems(3) by auto
      have "depth_of (replace_at a u' l) b = depth_of l a + depth_of u' b"
        using Node.IH(1) Node.prems(1,3) True sub by auto
      then show ?thesis using False True bx bin replace_at_notin[OF ar] by simp
    next
      case al: False
      then have ar: "a \<in> set_tree r" using Node.prems(2) False by simp
      have sub: "set_tree u' \<inter> set_tree \<langle>l, x, r\<rangle> \<subseteq> set_tree (subtree_at r a)"
        using Node.prems(4) False al by simp
      have bx: "b \<noteq> x" using sub Node.prems(3) sr dis by auto
      have bl: "b \<notin> set_tree l" using sub Node.prems(3) sr dis by auto
      have "depth_of (replace_at a u' r) b = depth_of r a + depth_of u' b"
        using Node.IH(2) Node.prems(1,3) ar sub by auto
      then show ?thesis using False al bx bl replace_at_notin[OF al] by simp
    qed
  qed
qed

lemma subtree_replace:
  "distinct (inorder t) \<Longrightarrow> a \<in> set_tree t \<Longrightarrow> b \<in> set_tree u' \<Longrightarrow>
   set_tree u' \<inter> set_tree t \<subseteq> set_tree (subtree_at t a) \<Longrightarrow>
   subtree_at (replace_at a u' t) b = subtree_at u' b"
proof (induction t)
  case Leaf
  then show ?case by simp
next
  case (Node l x r)
  have sl: "set_tree (subtree_at l a) \<subseteq> set_tree l"
    and sr: "set_tree (subtree_at r a) \<subseteq> set_tree r"
    by (rule set_subtree_at)+
  show ?case
  proof (cases "x = a")
    case True
    then show ?thesis by simp
  next
    case False
    have dis: "x \<notin> set_tree l" "x \<notin> set_tree r" "set_tree l \<inter> set_tree r = {}"
      using Node.prems(1) by auto
    show ?thesis
    proof (cases "a \<in> set_tree l")
      case True
      then have ar: "a \<notin> set_tree r" using dis by auto
      have sub: "set_tree u' \<inter> set_tree \<langle>l, x, r\<rangle> \<subseteq> set_tree (subtree_at l a)"
        using Node.prems(4) False True by simp
      have bx: "b \<noteq> x" using sub Node.prems(3) sl dis by auto
      have bin: "b \<in> set_tree (replace_at a u' l)"
        using set_replace_in[OF True, of u'] Node.prems(3) by auto
      have "subtree_at (replace_at a u' l) b = subtree_at u' b"
        using Node.IH(1) Node.prems(1,3) True sub by auto
      then show ?thesis using False True bx bin replace_at_notin[OF ar] by simp
    next
      case al: False
      then have ar: "a \<in> set_tree r" using Node.prems(2) False by simp
      have sub: "set_tree u' \<inter> set_tree \<langle>l, x, r\<rangle> \<subseteq> set_tree (subtree_at r a)"
        using Node.prems(4) False al by simp
      have bx: "b \<noteq> x" using sub Node.prems(3) sr dis by auto
      have bl: "b \<notin> set_tree l" using sub Node.prems(3) sr dis by auto
      have "subtree_at (replace_at a u' r) b = subtree_at u' b"
        using Node.IH(2) Node.prems(1,3) ar sub by auto
      then show ?thesis using False al bx bl replace_at_notin[OF al] by simp
    qed
  qed
qed

lemma set_replace:
  assumes "distinct (inorder t)" "a \<in> set_tree t"
  shows "set_tree (replace_at a u' t) = (set_tree t - set_tree (subtree_at t a)) \<union> set_tree u'"
proof -
  from inorder_context[OF assms] obtain xs ys where
    h: "inorder t = xs @ inorder (subtree_at t a) @ ys"
       "inorder (replace_at a u' t) = xs @ inorder u' @ ys" by blast
  have "distinct (xs @ inorder (subtree_at t a) @ ys)" using assms(1) h(1) by simp
  then have d: "set xs \<inter> set_tree (subtree_at t a) = {}" "set ys \<inter> set_tree (subtree_at t a) = {}"
    by auto
  have "set_tree (replace_at a u' t) = set xs \<union> set_tree u' \<union> set ys"
    using h(2) by (metis set_append set_inorder sup_assoc)
  moreover have "set_tree t = set xs \<union> set_tree (subtree_at t a) \<union> set ys"
    using h(1) by (metis set_append set_inorder sup_assoc)
  ultimately show ?thesis using d by auto
qed

section \<open>treapFind on a well-formed treap\<close>

lemma search_order_Node:
  "search_order m \<langle>l, x, r\<rangle> \<longleftrightarrow>
     search_order m l \<and> search_order m r \<and>
     (\<forall>y \<in> set_tree l. treeKey (m y) < treeKey (m x)) \<and>
     (\<forall>y \<in> set_tree r. treeKey (m x) < treeKey (m y))"
  by (auto simp: search_order_wrt sorted_wrt_append intro: less_trans)

lemma find_found:
  "repr m p par t \<Longrightarrow> search_order m t \<Longrightarrow> a \<in> set_tree t \<Longrightarrow> treeKey (m a) = k \<Longrightarrow>
   depth_of t a < n \<Longrightarrow> treapFind_loop n m p k = Some (Some a)"
proof (induction t arbitrary: p par n)
  case Leaf
  then show ?case by simp
next
  case (Node l x r)
  obtain n' where n: "n = Suc n'" using Node.prems(5) by (cases n) auto
  have px: "p = Some x" "repr m (L (m x)) (Some x) l" "repr m (R (m x)) (Some x) r"
    using Node.prems(1) by auto
  note so = Node.prems(2)[unfolded search_order_Node]
  show ?case
  proof (cases "x = a")
    case True
    then show ?thesis using px n Node.prems(4) by simp
  next
    case False
    show ?thesis
    proof (cases "a \<in> set_tree l")
      case True
      then have "k < treeKey (m x)" using so Node.prems(4) by auto
      moreover have "treapFind_loop n' m (L (m x)) k = Some (Some a)"
        using Node.IH(1)[OF px(2) _ True Node.prems(4)] so Node.prems(5) False True n by simp
      ultimately show ?thesis using px n by simp
    next
      case al: False
      then have ar: "a \<in> set_tree r" using Node.prems(3) False by simp
      then have "treeKey (m x) < k" using so Node.prems(4) by auto
      then have "\<not> k < treeKey (m x)" "treeKey (m x) < k" by auto
      moreover have "treapFind_loop n' m (R (m x)) k = Some (Some a)"
        using Node.IH(2)[OF px(3) _ ar Node.prems(4)] so Node.prems(5) False al n by simp
      ultimately show ?thesis using px n by simp
    qed
  qed
qed

lemma find_absent:
  "repr m p par t \<Longrightarrow> \<forall>a \<in> set_tree t. treeKey (m a) \<noteq> k \<Longrightarrow> height t \<le> n \<Longrightarrow>
   treapFind_loop n m p k = Some None"
proof (induction t arbitrary: p par n)
  case Leaf
  then show ?case by simp
next
  case (Node l x r)
  obtain n' where n: "n = Suc n'" using Node.prems(3) by (cases n) auto
  have px: "p = Some x" "repr m (L (m x)) (Some x) l" "repr m (R (m x)) (Some x) r"
    using Node.prems(1) by auto
  have "treapFind_loop n' m (L (m x)) k = Some None"
    using Node.IH(1)[OF px(2)] Node.prems(2,3) n by simp
  moreover have "treapFind_loop n' m (R (m x)) k = Some None"
    using Node.IH(2)[OF px(3)] Node.prems(2,3) n by simp
  ultimately show ?case using px n Node.prems(2) by auto
qed

section \<open>The store after a rotation\<close>

lemma rotate_right_eqs:
  assumes rep: "repr (mem s) (root s) None t" and dis: "distinct (inorder t)"
    and rt: "rt \<in> set_tree t" and lc: "L (mem s rt) = Some pv"
    and k: "treeKey (mem s pv) < treeKey (mem s rt)"
  shows "mem (treapRotate s rt pv) a =
     (if a = rt then (mem s rt)\<lparr>L := R (mem s pv), P := Some pv\<rparr>
      else if a = pv then (mem s pv)\<lparr>R := Some rt, P := P (mem s rt)\<rparr>
      else if R (mem s pv) = Some a then (mem s a)\<lparr>P := Some rt\<rparr>
      else if P (mem s rt) = Some a then
        (if treeKey (mem s rt) < treeKey (mem s a) then (mem s a)\<lparr>L := Some pv\<rparr>
         else (mem s a)\<lparr>R := Some pv\<rparr>)
      else mem s a)"
    and "root (treapRotate s rt pv) = (if P (mem s rt) = None then Some pv else root s)"
    and "rt \<noteq> pv" "R (mem s pv) \<noteq> Some rt" "R (mem s pv) \<noteq> Some pv"
      "P (mem s rt) \<noteq> Some pv" "P (mem s rt) \<noteq> Some rt"
      "P (mem s rt) = None \<or> P (mem s rt) \<noteq> R (mem s pv)"
proof -
  define m where "m = mem s"
  obtain ul ur where u: "subtree_at t rt = \<langle>ul, rt, ur\<rangle>"
    using subtree_at_in[OF rt] by blast
  have ru: "repr m (L (m rt)) (Some rt) ul"
    using repr_subtree[OF rep u] by (simp_all add: m_def)
  have du: "distinct (inorder \<langle>ul, rt, ur\<rangle>)"
    using distinct_subtree_at[OF dis, of rt] u by simp
  obtain A B where ul: "ul = \<langle>A, pv, B\<rangle>"
    using ru(1) lc by (cases ul) (auto simp: m_def)
  have rpv: "repr m (R (m pv)) (Some pv) B"
    using ru(1) lc ul by (auto simp: m_def)
  have rB: "R (m pv) = rootof B" using rpv by (rule repr_rootof)
  have d: "rt \<noteq> pv" "rt \<notin> set_tree B" "pv \<notin> set_tree B"
    using du ul by auto
  have gout: "P (m rt) = Some g \<Longrightarrow> g \<notin> set_tree \<langle>ul, rt, ur\<rangle>" for g
    using repr_parent[OF rep dis rt] u by (auto simp: m_def)
  have inB: "R (m pv) = Some a \<Longrightarrow> a \<in> set_tree B" for a
    using rB rootof_in[of B a] by simp
  have gout': "P (m rt) = Some g \<Longrightarrow> g \<noteq> rt \<and> g \<noteq> pv \<and> g \<notin> set_tree B" for g
    using gout[of g] ul by auto
  have pre5: "P (m rt) = None \<or> P (m rt) \<noteq> R (m pv)"
  proof (cases "P (m rt)")
    case None
    then show ?thesis by simp
  next
    case (Some g)
    then show ?thesis using gout'[of g] inB[of g] by auto
  qed
  have pre: "R (m pv) \<noteq> Some rt" "R (m pv) \<noteq> Some pv" "P (m rt) \<noteq> Some pv" "P (m rt) \<noteq> Some rt"
    using d by (auto dest: inB gout')
  note pre = pre pre5
  note eq = rotate_right_mem[OF k d(1) pre[unfolded m_def]]
  show "rt \<noteq> pv" "R (mem s pv) \<noteq> Some rt" "R (mem s pv) \<noteq> Some pv"
      "P (mem s rt) \<noteq> Some pv" "P (mem s rt) \<noteq> Some rt"
      "P (mem s rt) = None \<or> P (mem s rt) \<noteq> R (mem s pv)"
    using d(1) pre by (simp_all add: m_def)
  show "mem (treapRotate s rt pv) a =
     (if a = rt then (mem s rt)\<lparr>L := R (mem s pv), P := Some pv\<rparr>
      else if a = pv then (mem s pv)\<lparr>R := Some rt, P := P (mem s rt)\<rparr>
      else if R (mem s pv) = Some a then (mem s a)\<lparr>P := Some rt\<rparr>
      else if P (mem s rt) = Some a then
        (if treeKey (mem s rt) < treeKey (mem s a) then (mem s a)\<lparr>L := Some pv\<rparr>
         else (mem s a)\<lparr>R := Some pv\<rparr>)
      else mem s a)" by (rule eq(1))
  show "root (treapRotate s rt pv) = (if P (mem s rt) = None then Some pv else root s)"
    by (rule eq(2))
qed

lemma rotate_left_eqs:
  assumes rep: "repr (mem s) (root s) None t" and dis: "distinct (inorder t)"
    and rt: "rt \<in> set_tree t" and rc: "R (mem s rt) = Some pv"
    and k: "\<not> treeKey (mem s pv) < treeKey (mem s rt)"
  shows "mem (treapRotate s rt pv) a =
     (if a = rt then (mem s rt)\<lparr>R := L (mem s pv), P := Some pv\<rparr>
      else if a = pv then (mem s pv)\<lparr>L := Some rt, P := P (mem s rt)\<rparr>
      else if L (mem s pv) = Some a then (mem s a)\<lparr>P := Some rt\<rparr>
      else if P (mem s rt) = Some a then
        (if treeKey (mem s rt) < treeKey (mem s a) then (mem s a)\<lparr>L := Some pv\<rparr>
         else (mem s a)\<lparr>R := Some pv\<rparr>)
      else mem s a)"
    and "root (treapRotate s rt pv) = (if P (mem s rt) = None then Some pv else root s)"
    and "rt \<noteq> pv" "L (mem s pv) \<noteq> Some rt" "L (mem s pv) \<noteq> Some pv"
      "P (mem s rt) \<noteq> Some pv" "P (mem s rt) \<noteq> Some rt"
      "P (mem s rt) = None \<or> P (mem s rt) \<noteq> L (mem s pv)"
proof -
  define m where "m = mem s"
  obtain ul ur where u: "subtree_at t rt = \<langle>ul, rt, ur\<rangle>"
    using subtree_at_in[OF rt] by blast
  have ru: "repr m (R (m rt)) (Some rt) ur"
    using repr_subtree[OF rep u] by (simp_all add: m_def)
  have du: "distinct (inorder \<langle>ul, rt, ur\<rangle>)"
    using distinct_subtree_at[OF dis, of rt] u by simp
  obtain B C where ur: "ur = \<langle>B, pv, C\<rangle>"
    using ru(1) rc by (cases ur) (auto simp: m_def)
  have rpv: "repr m (L (m pv)) (Some pv) B"
    using ru(1) rc ur by (auto simp: m_def)
  have rB: "L (m pv) = rootof B" using rpv by (rule repr_rootof)
  have d: "rt \<noteq> pv" "rt \<notin> set_tree B" "pv \<notin> set_tree B"
    using du ur by auto
  have gout: "P (m rt) = Some g \<Longrightarrow> g \<notin> set_tree \<langle>ul, rt, ur\<rangle>" for g
    using repr_parent[OF rep dis rt] u by (auto simp: m_def)
  have inB: "L (m pv) = Some a \<Longrightarrow> a \<in> set_tree B" for a
    using rB rootof_in[of B a] by simp
  have gout': "P (m rt) = Some g \<Longrightarrow> g \<noteq> rt \<and> g \<noteq> pv \<and> g \<notin> set_tree B" for g
    using gout[of g] ur by auto
  have pre5: "P (m rt) = None \<or> P (m rt) \<noteq> L (m pv)"
  proof (cases "P (m rt)")
    case None
    then show ?thesis by simp
  next
    case (Some g)
    then show ?thesis using gout'[of g] inB[of g] by auto
  qed
  have pre: "L (m pv) \<noteq> Some rt" "L (m pv) \<noteq> Some pv" "P (m rt) \<noteq> Some pv" "P (m rt) \<noteq> Some rt"
    using d by (auto dest: inB gout')
  note pre = pre pre5
  note eq = rotate_left_mem[OF k d(1) pre[unfolded m_def]]
  show "rt \<noteq> pv" "L (mem s pv) \<noteq> Some rt" "L (mem s pv) \<noteq> Some pv"
      "P (mem s rt) \<noteq> Some pv" "P (mem s rt) \<noteq> Some rt"
      "P (mem s rt) = None \<or> P (mem s rt) \<noteq> L (mem s pv)"
    using d(1) pre by (simp_all add: m_def)
  show "mem (treapRotate s rt pv) a =
     (if a = rt then (mem s rt)\<lparr>R := L (mem s pv), P := Some pv\<rparr>
      else if a = pv then (mem s pv)\<lparr>L := Some rt, P := P (mem s rt)\<rparr>
      else if L (mem s pv) = Some a then (mem s a)\<lparr>P := Some rt\<rparr>
      else if P (mem s rt) = Some a then
        (if treeKey (mem s rt) < treeKey (mem s a) then (mem s a)\<lparr>L := Some pv\<rparr>
         else (mem s a)\<lparr>R := Some pv\<rparr>)
      else mem s a)" by (rule eq(1))
  show "root (treapRotate s rt pv) = (if P (mem s rt) = None then Some pv else root s)"
    by (rule eq(2))
qed

lemma search_order_unique:
  assumes "search_order m t" "a \<in> set_tree t" "b \<in> set_tree t" "treeKey (m a) = treeKey (m b)"
  shows "a = b"
proof -
  have "distinct (map (\<lambda>a. treeKey (m a)) (inorder t))"
    using assms(1) unfolding search_order_def keys_inorder_def
    by (simp add: strict_sorted_iff)
  then have "inj_on (\<lambda>a. treeKey (m a)) (set (inorder t))"
    by (simp add: distinct_map)
  then show ?thesis using assms(2-4) by (auto dest: inj_onD)
qed

lemma wf_sides:
  assumes wf: "wf_treap s t" and b: "b \<in> set_tree t"
    and ch: "L (mem s b) = Some c \<or> R (mem s b) = Some c"
  shows "treeKey (mem s c) < treeKey (mem s b) \<longleftrightarrow> L (mem s b) = Some c"
proof -
  have rep: "repr (mem s) (root s) None t" and so: "search_order (mem s) t"
    using wf by (simp_all add: wf_treap_def)
  obtain l r where u: "subtree_at t b = \<langle>l, b, r\<rangle>"
    using subtree_at_in[OF b] by blast
  note sides = ordered_sides[OF so[unfolded search_order_wrt] u] repr_child_side[OF rep u, of c]
  show ?thesis using sides ch by (metis less_asym)
qed

lemma root_iff_no_parent:
  assumes "repr m p None t" "distinct (inorder t)" "a \<in> set_tree t"
  shows "P (m a) = None \<longleftrightarrow> p = Some a"
  using repr_parent[OF assms] by auto

section \<open>Promotion\<close>

lemma depth_rot_tree:
  assumes rep: "repr m p par t" and dis: "distinct (inorder t)"
    and rt: "rt \<in> set_tree t"
    and ch: "L (m rt) = Some pv \<or> R (m rt) = Some pv"
  shows "depth_of (rot_tree rt pv t) pv = depth_of t rt \<and> depth_of t pv = Suc (depth_of t rt)"
proof -
  obtain ul ur where u: "subtree_at t rt = \<langle>ul, rt, ur\<rangle>"
    using subtree_at_in[OF rt] by blast
  have ru: "repr m (L (m rt)) (Some rt) ul" "repr m (R (m rt)) (Some rt) ur"
    using repr_subtree[OF rep u] by simp_all
  have du: "distinct (inorder \<langle>ul, rt, ur\<rangle>)"
    using distinct_subtree_at[OF dis, of rt] u by simp
  show ?thesis
  proof (cases "L (m rt) = Some pv")
    case True
    then obtain A B where ul: "ul = \<langle>A, pv, B\<rangle>" using ru(1) by (cases ul) auto
    let ?u' = "\<langle>A, pv, \<langle>B, rt, ur\<rangle>\<rangle>"
    have rot: "rot_tree rt pv t = replace_at rt ?u' t" by (simp add: rot_tree_def u ul)
    have "depth_of (replace_at rt ?u' t) pv = depth_of t rt + depth_of ?u' pv"
      using u ul by (intro depth_replace[OF dis rt]) auto
    moreover have "depth_of t pv = depth_of t rt + depth_of (subtree_at t rt) pv"
      using u ul by (intro depth_in_subtree[OF dis rt]) auto
    ultimately show ?thesis using rot u ul du by auto
  next
    case False
    then have rc: "R (m rt) = Some pv" using ch by simp
    then obtain B C where ur: "ur = \<langle>B, pv, C\<rangle>" using ru(2) by (cases ur) auto
    let ?u' = "\<langle>\<langle>ul, rt, B\<rangle>, pv, C\<rangle>"
    have "rootof (left (subtree_at t rt)) \<noteq> Some pv"
      using u ur du rootof_in[of ul pv] by auto
    then have rot: "rot_tree rt pv t = replace_at rt ?u' t" by (simp add: rot_tree_def u ur)
    have "depth_of (replace_at rt ?u' t) pv = depth_of t rt + depth_of ?u' pv"
      using u ur by (intro depth_replace[OF dis rt]) auto
    moreover have "depth_of t pv = depth_of t rt + depth_of (subtree_at t rt) pv"
      using u ur by (intro depth_in_subtree[OF dis rt]) auto
    ultimately show ?thesis using rot u ur du by auto
  qed
qed

lemma wf_set_heapKey: "wf_treap (set_heapKey s a v) t = wf_treap s t"
proof -
  have "repr (mem (set_heapKey s a v)) (root s) None t = repr (mem s) (root s) None t"
    by (rule repr_frame) simp
  moreover have "treeKey (mem (set_heapKey s a v) b) = treeKey (mem s b)" for b by simp
  then have "search_order (mem (set_heapKey s a v)) t = search_order (mem s) t"
    by (simp only: search_order_wrt)
  moreover have "root (set_heapKey s a v) = root s" by simp
  ultimately show ?thesis by (simp only: wf_treap_def)
qed

lemma depth_zero_root:
  assumes "repr m p None t" "distinct (inorder t)" "a \<in> set_tree t"
  shows "depth_of t a = 0 \<longleftrightarrow> P (m a) = None"
proof -
  have "depth_of t a = 0 \<longleftrightarrow> rootof t = Some a" using assms(3) by (cases t) auto
  then show ?thesis using root_iff_no_parent[OF assms] repr_rootof[OF assms(1)] by simp
qed

lemma usurp_step:
  assumes wf: "wf_treap s t" and a: "a \<in> set_tree t" and k: "treeKey (mem s a) = k"
    and n: "depth_of t a < n"
  shows "\<exists>s' t'. treapUsurpingFind n s k = Some (s', Some a) \<and> wf_treap s' t' \<and>
           inorder t' = inorder t \<and> treeKey (mem s' a) = k \<and>
           depth_of t' a = depth_of t a - 1"
proof -
  have rep: "repr (mem s) (root s) None t" and so: "search_order (mem s) t"
    using wf by (simp_all add: wf_treap_def)
  have dis: "distinct (inorder t)" using so by (rule search_order_distinct)
  have fnd: "treapFind n s k = Some (Some a)"
    unfolding treapFind_def using find_found[OF rep so a k n] .
  show ?thesis
  proof (cases "P (mem s a)")
    case None
    then have "depth_of t a = 0" using depth_zero_root[OF rep dis a] by simp
    then show ?thesis using fnd None wf k by (auto simp: treapUsurpingFind_def)
  next
    case (Some p)
    define s2 where "s2 = set_heapKey (set_heapKey s a (heapKey (mem s p))) p (heapKey (mem s a))"
    have res: "treapUsurpingFind n s k = Some (treapRotate s2 p a, Some a)"
      using fnd Some by (simp add: treapUsurpingFind_def s2_def Let_def)
    have wf2: "wf_treap s2 t" using wf by (simp add: s2_def wf_set_heapKey)
    have rep2: "repr (mem s2) (root s2) None t" using wf2 by (simp add: wf_treap_def)
    have links: "L (mem s2 b) = L (mem s b)" "R (mem s2 b) = R (mem s b)"
      "P (mem s2 b) = P (mem s b)" "treeKey (mem s2 b) = treeKey (mem s b)" for b
      by (simp_all add: s2_def)
    from repr_parent[OF rep dis a] Some have pt: "p \<in> set_tree t"
      and ch: "L (mem s p) = Some a \<or> R (mem s p) = Some a" by auto
    have ch2: "L (mem s2 p) = Some a \<or> R (mem s2 p) = Some a" using ch by (simp add: links)
    have wf': "wf_treap (treapRotate s2 p a) (rot_tree p a t)"
      using rotate_wf[OF wf2 pt ch2] .
    have d: "depth_of (rot_tree p a t) a = depth_of t a - 1"
      using depth_rot_tree[OF rep2 dis pt ch2] by simp
    have "inorder (rot_tree p a t) = inorder t" using inorder_rot_tree[OF dis pt] .
    moreover have "treeKey (mem (treapRotate s2 p a) a) = k"
      using k by (simp add: rotate_keys links)
    ultimately show ?thesis using res wf' d by blast
  qed
qed

lemma usurp_times_depth:
  assumes "wf_treap s t" "a \<in> set_tree t" "treeKey (mem s a) = k" "depth_of t a < n"
  shows "\<exists>s' t'. usurp_times j n s k = Some s' \<and> wf_treap s' t' \<and>
           inorder t' = inorder t \<and> treeKey (mem s' a) = k \<and>
           depth_of t' a = depth_of t a - j"
  using assms
proof (induction j arbitrary: s t)
  case 0
  then show ?case by auto
next
  case (Suc j)
  from usurp_step[OF Suc.prems] obtain s1 t1 where
    s1: "treapUsurpingFind n s k = Some (s1, Some a)" "wf_treap s1 t1"
      "inorder t1 = inorder t" "treeKey (mem s1 a) = k" "depth_of t1 a = depth_of t a - 1"
    by blast
  have a1: "a \<in> set_tree t1" using s1(3) Suc.prems(2) by (metis set_inorder)
  have n1: "depth_of t1 a < n" using s1(5) Suc.prems(4) by simp
  from Suc.IH[OF s1(2) a1 s1(4) n1] obtain s' t' where
    "usurp_times j n s1 k = Some s'" "wf_treap s' t'" "inorder t' = inorder t1"
    "treeKey (mem s' a) = k" "depth_of t' a = depth_of t1 a - j" by blast
  then show ?case using s1 by auto
qed

section \<open>treapDecouple on a well-formed treap\<close>

lemma splice_mem:
  assumes one: "L (mem s x) = None \<or> R (mem s x) = None"
    and c: "c = (case R (mem s x) of Some r \<Rightarrow> Some r | None \<Rightarrow> L (mem s x))"
    and px: "P (mem s x) \<noteq> Some x" and cx: "c \<noteq> Some x"
    and pc: "P (mem s x) = None \<or> P (mem s x) \<noteq> c"
  shows "mem (treapDecouple_splice s x) a =
     (if c = Some a then (mem s a)\<lparr>P := P (mem s x)\<rparr>
      else if P (mem s x) = Some a then
        (if treeKey (mem s x) < treeKey (mem s a) then (mem s a)\<lparr>L := c\<rparr>
         else (mem s a)\<lparr>R := c\<rparr>)
      else mem s a)"
    and "root (treapDecouple_splice s x) = (if P (mem s x) = None then c else root s)"
proof -
  show "mem (treapDecouple_splice s x) a =
     (if c = Some a then (mem s a)\<lparr>P := P (mem s x)\<rparr>
      else if P (mem s x) = Some a then
        (if treeKey (mem s x) < treeKey (mem s a) then (mem s a)\<lparr>L := c\<rparr>
         else (mem s a)\<lparr>R := c\<rparr>)
      else mem s a)"
    using assms
    by (cases "R (mem s x)"; cases "L (mem s x)"; cases "P (mem s x)")
       (simp_all add: treapDecouple_splice_def Let_def)
  show "root (treapDecouple_splice s x) = (if P (mem s x) = None then c else root s)"
    using assms
    by (cases "R (mem s x)"; cases "L (mem s x)"; cases "P (mem s x)")
       (simp_all add: treapDecouple_splice_def Let_def)
qed

lemma rspine_le_height: "rspine t \<le> height t"
  by (induction t) auto

lemma lspine_le_height: "lspine t \<le> height t"
  by (induction t) auto

lemma height_subtree_at: "height (subtree_at t a) \<le> height t"
  by (induction t) auto

lemma rootof_None: "rootof t = None \<longleftrightarrow> t = \<langle>\<rangle>"
  by (cases t) auto

lemma splice_sim:
  assumes wf: "wf_treap s t" and x: "x \<in> set_tree t"
    and one: "L (mem s x) = None \<or> R (mem s x) = None"
  shows "wf_treap (treapDecouple_splice s x) (splice_tree x t)"
    and "set_tree (splice_tree x t) = set_tree t - {x}"
    and "mem (treapDecouple_splice s x) a =
     (if (case R (mem s x) of Some r \<Rightarrow> Some r | None \<Rightarrow> L (mem s x)) = Some a
      then (mem s a)\<lparr>P := P (mem s x)\<rparr>
      else if P (mem s x) = Some a then
        (if treeKey (mem s x) < treeKey (mem s a)
         then (mem s a)\<lparr>L := (case R (mem s x) of Some r \<Rightarrow> Some r | None \<Rightarrow> L (mem s x))\<rparr>
         else (mem s a)\<lparr>R := (case R (mem s x) of Some r \<Rightarrow> Some r | None \<Rightarrow> L (mem s x))\<rparr>)
      else mem s a)"
    and "root (treapDecouple_splice s x) =
      (if P (mem s x) = None then (case R (mem s x) of Some r \<Rightarrow> Some r | None \<Rightarrow> L (mem s x))
       else root s)"
proof -
  define m where "m = mem s"
  define m' where "m' = mem (treapDecouple_splice s x)"
  define c where "c = (case R (m x) of Some r \<Rightarrow> Some r | None \<Rightarrow> L (m x))"
  have rep: "repr m (root s) None t" and so: "search_order m t"
    using wf by (simp_all add: wf_treap_def m_def)
  have dis: "distinct (inorder t)" using so by (rule search_order_distinct)
  obtain A B where u: "subtree_at t x = \<langle>A, x, B\<rangle>"
    using subtree_at_in[OF x] by blast
  have ru: "repr m (L (m x)) (Some x) A" "repr m (R (m x)) (Some x) B"
    using repr_subtree[OF rep u] by simp_all
  have rAB: "L (m x) = rootof A" "R (m x) = rootof B"
    using ru by (auto dest: repr_rootof)
  have du: "distinct (inorder \<langle>A, x, B\<rangle>)"
    using distinct_subtree_at[OF dis, of x] u by simp
  have AB: "A = \<langle>\<rangle> \<or> B = \<langle>\<rangle>" using one rAB by (auto simp: rootof_None m_def)
  define u' where "u' = (if B = \<langle>\<rangle> then A else B)"
  have cu: "c = rootof u'"
    using rAB AB by (cases B) (auto simp: c_def u'_def)
  have ru': "repr m c (Some x) u'"
    using ru rAB AB cu by (auto simp: u'_def)
  have su': "set_tree u' \<subseteq> set_tree \<langle>A, x, B\<rangle>" "x \<notin> set_tree u'"
    "set_tree \<langle>A, x, B\<rangle> = insert x (set_tree u')"
    using du AB by (auto simp: u'_def)
  have inu: "c = Some a \<Longrightarrow> a \<in> set_tree u'" for a
    using cu rootof_in[of u' a] by simp
  have gout: "P (m x) = Some g \<Longrightarrow> g \<notin> set_tree \<langle>A, x, B\<rangle>" for g
    using repr_parent[OF rep dis x] u by auto
  have pre1: "P (m x) \<noteq> Some x" using gout[of x] by auto
  have pre2: "c \<noteq> Some x" using inu[of x] su' by auto
  have pre3: "P (m x) = None \<or> P (m x) \<noteq> c"
  proof (cases "P (m x)")
    case None
    then show ?thesis by simp
  next
    case (Some g)
    then show ?thesis using gout[of g] inu[of g] su' by auto
  qed
  note eq = splice_mem[OF one c_def[unfolded m_def] pre1[unfolded m_def] pre2 pre3[unfolded m_def],
      folded m_def m'_def]
  show "mem (treapDecouple_splice s x) a =
     (if (case R (mem s x) of Some r \<Rightarrow> Some r | None \<Rightarrow> L (mem s x)) = Some a
      then (mem s a)\<lparr>P := P (mem s x)\<rparr>
      else if P (mem s x) = Some a then
        (if treeKey (mem s x) < treeKey (mem s a)
         then (mem s a)\<lparr>L := (case R (mem s x) of Some r \<Rightarrow> Some r | None \<Rightarrow> L (mem s x))\<rparr>
         else (mem s a)\<lparr>R := (case R (mem s x) of Some r \<Rightarrow> Some r | None \<Rightarrow> L (mem s x))\<rparr>)
      else mem s a)"
    using eq(1)[of a] unfolding m_def m'_def c_def .
  show "root (treapDecouple_splice s x) =
      (if P (mem s x) = None then (case R (mem s x) of Some r \<Rightarrow> Some r | None \<Rightarrow> L (mem s x))
       else root s)"
    using eq(2) unfolding m_def m'_def c_def .
  have keys: "treeKey (m' a) = treeKey (m a)" for a by (simp add: eq(1))
  have i: "repr m' c (P (m x)) u'"
  proof (rule repr_new_parent[OF ru'])
    show "distinct (inorder u')" using du by (auto simp: u'_def)
    fix a assume a: "a \<in> set_tree u'"
    have "P (m x) \<noteq> Some a" using gout[of a] a su' by auto
    then show "L (m' a) = L (m a) \<and> R (m' a) = R (m a) \<and>
        P (m' a) = (if c = Some a then P (m x) else P (m a))"
      by (simp add: eq(1))
  qed
  have out: "outside_ok m m' x c b"
    if b: "b \<in> set_tree t" "b \<notin> set_tree (subtree_at t x)" for b
  proof -
    have bn: "c \<noteq> Some b" using b u su' inu[of b] by auto
    show ?thesis
    proof (cases "P (m x) = Some b")
      case True
      have lr: "L (m b) = Some x \<or> R (m b) = Some x"
        using repr_parent[OF rep dis x] True by auto
      have nb: "\<not> (L (m b) = Some x \<and> R (m b) = Some x)"
        using repr_children_differ(1)[OF rep dis b(1), of x] by auto
      have sd: "treeKey (m x) < treeKey (m b) \<longleftrightarrow> L (m b) = Some x"
        using wf_sides[OF wf b(1), of x] lr by (simp add: m_def)
      show ?thesis using True bn lr nb sd by (auto simp: eq(1) outside_ok_def redirect_def)
    next
      case False
      have "L (m b) \<noteq> Some x" "R (m b) \<noteq> Some x"
        using repr_child[OF rep b(1), of x] False by auto
      then show ?thesis using False bn by (auto simp: eq(1) outside_ok_def redirect_def)
    qed
  qed
  have st: "splice_tree x t = replace_at x u' t"
    by (simp add: splice_tree_def u u'_def)
  have "repr m' (redirect x c (root s)) None (replace_at x u' t)"
    using rep dis i out by (rule repr_replace_aux)
  moreover have "redirect x c (root s) = root (treapDecouple_splice s x)"
    using root_iff_no_parent[OF rep dis x] by (auto simp: eq(2) redirect_def)
  ultimately have rep': "repr m' (root (treapDecouple_splice s x)) None (splice_tree x t)"
    by (simp add: st)
  from inorder_context[OF dis x] obtain xs ys where
    io: "inorder t = xs @ inorder (subtree_at t x) @ ys"
        "inorder (replace_at x u' t) = xs @ inorder u' @ ys" by blast
  have "sorted_wrt (\<lambda>a b. treeKey (m a) < treeKey (m b)) (xs @ inorder \<langle>A, x, B\<rangle> @ ys)"
    using so io(1) u by (simp add: search_order_wrt)
  then have "sorted_wrt (\<lambda>a b. treeKey (m a) < treeKey (m b)) (xs @ inorder u' @ ys)"
    using AB by (auto simp: u'_def sorted_wrt_append)
  then have so': "search_order m' (splice_tree x t)"
    by (simp add: search_order_wrt keys st io(2))
  show "wf_treap (treapDecouple_splice s x) (splice_tree x t)"
    using rep' so' by (simp add: wf_treap_def m'_def)
  show "set_tree (splice_tree x t) = set_tree t - {x}"
    using set_replace[OF dis x, of u'] u su' set_subtree_at[of t x] by (auto simp: st)
qed

lemma subtree_rot_left_child:
  assumes dis: "distinct (inorder t)" and x: "x \<in> set_tree t"
    and u: "subtree_at t x = \<langle>\<langle>A1, l, A2\<rangle>, x, B\<rangle>"
  shows "subtree_at (rot_tree x l t) x = \<langle>A2, x, B\<rangle>"
proof -
  have du: "distinct (inorder \<langle>\<langle>A1, l, A2\<rangle>, x, B\<rangle>)"
    using distinct_subtree_at[OF dis, of x] u by simp
  let ?u' = "\<langle>A1, l, \<langle>A2, x, B\<rangle>\<rangle>"
  have rot: "rot_tree x l t = replace_at x ?u' t" by (simp add: rot_tree_def u)
  have "subtree_at (replace_at x ?u' t) x = subtree_at ?u' x"
    using u by (intro subtree_replace[OF dis x]) auto
  then show ?thesis using rot du by auto
qed

lemma subtree_rot_right_child:
  assumes dis: "distinct (inorder t)" and x: "x \<in> set_tree t"
    and u: "subtree_at t x = \<langle>A, x, \<langle>B1, r, B2\<rangle>\<rangle>"
  shows "subtree_at (rot_tree x r t) x = \<langle>A, x, B1\<rangle>"
proof -
  have du: "distinct (inorder \<langle>A, x, \<langle>B1, r, B2\<rangle>\<rangle>)"
    using distinct_subtree_at[OF dis, of x] u by simp
  let ?u' = "\<langle>\<langle>A, x, B1\<rangle>, r, B2\<rangle>"
  have "rootof (left (subtree_at t x)) \<noteq> Some r"
    using u du rootof_in[of A r] by auto
  then have rot: "rot_tree x r t = replace_at x ?u' t" by (simp add: rot_tree_def u)
  have "subtree_at (replace_at x ?u' t) x = subtree_at ?u' x"
    using u by (intro subtree_replace[OF dis x]) auto
  then show ?thesis using rot du by auto
qed

lemma decouple_loop_ok:
  assumes "wf_treap s t" "x \<in> set_tree t" "subtree_at t x = \<langle>A, x, B\<rangle>"
    "rspine A + lspine B \<le> n"
  shows "\<exists>s1 t1. treapDecouple_loop n s x = Some s1 \<and> wf_treap s1 t1 \<and>
           inorder t1 = inorder t \<and> (L (mem s1 x) = None \<or> R (mem s1 x) = None) \<and>
           (\<forall>b. treeKey (mem s1 b) = treeKey (mem s b) \<and> heapKey (mem s1 b) = heapKey (mem s b))"
  using assms
proof (induction n arbitrary: s t A B)
  case 0
  have rep: "repr (mem s) (root s) None t" using "0.prems"(1) by (simp add: wf_treap_def)
  have "A = \<langle>\<rangle>" using "0.prems"(4) by (cases A) auto
  then have "L (mem s x) = None"
    using repr_subtree[OF rep "0.prems"(3)] by simp
  then show ?case using "0.prems"(1) by auto
next
  case (Suc n)
  have rep: "repr (mem s) (root s) None t" and so: "search_order (mem s) t"
    using Suc.prems(1) by (simp_all add: wf_treap_def)
  have dis: "distinct (inorder t)" using so by (rule search_order_distinct)
  note ru = repr_subtree[OF rep Suc.prems(3)]
  show ?case
  proof (cases "L (mem s x)")
    case None
    then show ?thesis using Suc.prems(1) by auto
  next
    case (Some l)
    note lS = Some
    show ?thesis
    proof (cases "R (mem s x)")
      case None
      then show ?thesis using Suc.prems(1) lS by auto
    next
      case (Some r)
      obtain A1 A2 where A: "A = \<langle>A1, l, A2\<rangle>" using ru lS by (cases A) auto
      obtain B1 B2 where B: "B = \<langle>B1, r, B2\<rangle>" using ru Some by (cases B) auto
      define pv where "pv = (if heapKey (mem s l) > heapKey (mem s r) then l else r)"
      define s' where "s' = treapRotate s x pv"
      have step: "treapDecouple_loop (Suc n) s x = treapDecouple_loop n s' x"
        using lS Some by (simp add: s'_def pv_def)
      have ch: "L (mem s x) = Some pv \<or> R (mem s x) = Some pv"
        using lS Some by (simp add: pv_def)
      have wf': "wf_treap s' (rot_tree x pv t)"
        unfolding s'_def using rotate_wf[OF Suc.prems(1,2) ch] .
      have io: "inorder (rot_tree x pv t) = inorder t" using inorder_rot_tree[OF dis Suc.prems(2)] .
      have x': "x \<in> set_tree (rot_tree x pv t)"
        using set_rot_tree[OF dis Suc.prems(2)] Suc.prems(2) by simp
      have "\<exists>A' B'. subtree_at (rot_tree x pv t) x = \<langle>A', x, B'\<rangle> \<and> rspine A' + lspine B' \<le> n"
      proof (cases "heapKey (mem s l) > heapKey (mem s r)")
        case True
        then have "subtree_at (rot_tree x pv t) x = \<langle>A2, x, B\<rangle>"
          using subtree_rot_left_child[OF dis Suc.prems(2)] Suc.prems(3) A by (simp add: pv_def)
        moreover have "rspine A2 + lspine B \<le> n" using Suc.prems(4) A by simp
        ultimately show ?thesis by blast
      next
        case False
        then have "subtree_at (rot_tree x pv t) x = \<langle>A, x, B1\<rangle>"
          using subtree_rot_right_child[OF dis Suc.prems(2)] Suc.prems(3) B by (simp add: pv_def)
        moreover have "rspine A + lspine B1 \<le> n" using Suc.prems(4) B by simp
        ultimately show ?thesis by blast
      qed
      then obtain A' B' where sub': "subtree_at (rot_tree x pv t) x = \<langle>A', x, B'\<rangle>"
        and le: "rspine A' + lspine B' \<le> n" by blast
      from Suc.IH[OF wf' x' sub' le] obtain s1 t1 where
        h: "treapDecouple_loop n s' x = Some s1" "wf_treap s1 t1"
           "inorder t1 = inorder (rot_tree x pv t)"
           "L (mem s1 x) = None \<or> R (mem s1 x) = None"
           "\<forall>b. treeKey (mem s1 b) = treeKey (mem s' b) \<and> heapKey (mem s1 b) = heapKey (mem s' b)"
        by blast
      have "\<forall>b. treeKey (mem s1 b) = treeKey (mem s b) \<and> heapKey (mem s1 b) = heapKey (mem s b)"
        using h(5) by (simp add: s'_def rotate_keys)
      then show ?thesis using step h(1-4) io by auto
    qed
  qed
qed

section \<open>treapAppend on a well-formed treap\<close>

lemma seek_tree_Some: "t \<noteq> \<langle>\<rangle> \<Longrightarrow> \<exists>c. seek_tree m k t = Some c"
  by (cases t) (auto split: option.splits)

lemma seek_tree_None: "seek_tree m k t = None \<longleftrightarrow> t = \<langle>\<rangle>"
  by (cases t) (auto split: option.splits)

lemma seek_tree_in: "seek_tree m k t = Some c \<Longrightarrow> c \<in> set_tree t"
  by (induction t arbitrary: c) (auto split: if_splits option.splits)

lemma seek_ok:
  "repr m (Some c) par t \<Longrightarrow> height t \<le> n \<Longrightarrow> treapAppend_seek n m c k = seek_tree m k t"
proof (induction t arbitrary: n c par)
  case Leaf
  then show ?case by simp
next
  case (Node l a r)
  obtain n' where n: "n = Suc n'" using Node.prems(2) by (cases n) auto
  have px: "c = a" "repr m (L (m a)) (Some a) l" "repr m (R (m a)) (Some a) r"
    using Node.prems(1) by auto
  have hl: "height l \<le> n'" "height r \<le> n'" using Node.prems(2) n by auto
  show ?case
  proof (cases "k < treeKey (m a)")
    case True
    show ?thesis
    proof (cases "L (m a)")
      case None
      then have "l = \<langle>\<rangle>" using px(2) by (cases l) auto
      then show ?thesis using True None n px(1) by simp
    next
      case (Some nx)
      then have "l \<noteq> \<langle>\<rangle>" using px(2) by (cases l) auto
      then obtain d where d: "seek_tree m k l = Some d" using seek_tree_Some by blast
      have "treapAppend_seek n' m nx k = seek_tree m k l"
        using Node.IH(1)[of nx "Some a" n'] px(2) Some hl by simp
      then show ?thesis using True Some n px(1) d by simp
    qed
  next
    case False
    show ?thesis
    proof (cases "R (m a)")
      case None
      then have "r = \<langle>\<rangle>" using px(3) by (cases r) auto
      then show ?thesis using False None n px(1) by simp
    next
      case (Some nx)
      then have "r \<noteq> \<langle>\<rangle>" using px(3) by (cases r) auto
      then obtain d where d: "seek_tree m k r = Some d" using seek_tree_Some by blast
      have "treapAppend_seek n' m nx k = seek_tree m k r"
        using Node.IH(2)[of nx "Some a" n'] px(3) Some hl by simp
      then show ?thesis using False Some n px(1) d by simp
    qed
  qed
qed

lemma set_ins_tree: "set_tree (ins_tree m k nn t) = insert nn (set_tree t)"
  by (induction t) auto

lemma distinct_ins_tree:
  "distinct (inorder t) \<Longrightarrow> nn \<notin> set_tree t \<Longrightarrow> distinct (inorder (ins_tree m k nn t))"
  by (induction t) (auto simp: set_ins_tree)

lemma depth_ins_tree: "nn \<notin> set_tree t \<Longrightarrow> depth_of (ins_tree m k nn t) nn \<le> height t"
  by (induction t) (auto simp: set_ins_tree)

lemma link_repr:
  assumes "repr m p par t" "distinct (inorder t)" "nn \<notin> set_tree t"
    "seek_tree m k t = Some cur"
    "m' = (m(nn := \<lparr>treeKey = k, heapKey = hk, L = None, R = None, P = Some cur\<rparr>))
             (cur := (if k < treeKey (m cur) then (m cur)\<lparr>L := Some nn\<rparr>
                      else (m cur)\<lparr>R := Some nn\<rparr>))"
  shows "repr m' p par (ins_tree m k nn t)"
  using assms(1-4)
proof (induction t arbitrary: p par)
  case Leaf
  then show ?case by simp
next
  case (Node l a r)
  have px: "p = Some a" "P (m a) = par" "repr m (L (m a)) (Some a) l"
    "repr m (R (m a)) (Some a) r"
    using Node.prems(1) by auto
  have dis: "a \<notin> set_tree l" "a \<notin> set_tree r" "set_tree l \<inter> set_tree r = {}"
    "distinct (inorder l)" "distinct (inorder r)"
    using Node.prems(2) by auto
  have nn: "nn \<noteq> a" "nn \<notin> set_tree l" "nn \<notin> set_tree r" using Node.prems(3) by auto
  have frame: "repr m' q (Some a) u = repr m q (Some a) u"
    if "cur \<notin> set_tree u" "nn \<notin> set_tree u" for q u
    using that by (intro repr_frame) (auto simp: assms(5))
  show ?case
  proof (cases "k < treeKey (m a)")
    case True
    show ?thesis
    proof (cases "seek_tree m k l")
      case None
      then have l: "l = \<langle>\<rangle>" by (simp add: seek_tree_None)
      have cur: "cur = a" using Node.prems(4) True None by simp
      have "repr m' (R (m a)) (Some a) r" using frame[of r] px(4) dis nn cur by simp
      moreover have "m' a = (m a)\<lparr>L := Some nn\<rparr>" using True cur by (simp add: assms(5))
      moreover have "m' nn = \<lparr>treeKey = k, heapKey = hk, L = None, R = None, P = Some a\<rparr>"
        using cur nn by (simp add: assms(5))
      ultimately show ?thesis using True l px by simp
    next
      case (Some d)
      then have cur: "cur = d" "cur \<in> set_tree l"
        using Node.prems(4) True seek_tree_in[OF Some] by auto
      have ca: "cur \<noteq> a" "cur \<notin> set_tree r" using cur dis by auto
      have "repr m' (L (m a)) (Some a) (ins_tree m k nn l)"
        using Node.IH(1)[OF px(3) dis(4) nn(2)] Some cur by simp
      moreover have "repr m' (R (m a)) (Some a) r" using frame[of r] px(4) ca nn by simp
      moreover have "m' a = m a" using ca nn by (simp add: assms(5))
      ultimately show ?thesis using True px by simp
    qed
  next
    case False
    show ?thesis
    proof (cases "seek_tree m k r")
      case None
      then have r: "r = \<langle>\<rangle>" by (simp add: seek_tree_None)
      have cur: "cur = a" using Node.prems(4) False None by simp
      have "repr m' (L (m a)) (Some a) l" using frame[of l] px(3) dis nn cur by simp
      moreover have "m' a = (m a)\<lparr>R := Some nn\<rparr>" using False cur by (simp add: assms(5))
      moreover have "m' nn = \<lparr>treeKey = k, heapKey = hk, L = None, R = None, P = Some a\<rparr>"
        using cur nn by (simp add: assms(5))
      ultimately show ?thesis using False r px by simp
    next
      case (Some d)
      then have cur: "cur = d" "cur \<in> set_tree r"
        using Node.prems(4) False seek_tree_in[OF Some] by auto
      have ca: "cur \<noteq> a" "cur \<notin> set_tree l" using cur dis by auto
      have "repr m' (R (m a)) (Some a) (ins_tree m k nn r)"
        using Node.IH(2)[OF px(4) dis(5) nn(3)] Some cur by simp
      moreover have "repr m' (L (m a)) (Some a) l" using frame[of l] px(3) ca nn by simp
      moreover have "m' a = m a" using ca nn by (simp add: assms(5))
      ultimately show ?thesis using False px by simp
    qed
  qed
qed

lemma ins_order_sorted:
  assumes "search_order m t" "nn \<notin> set_tree t"
    "treeKey (m' nn) = k" "\<And>a. a \<noteq> nn \<Longrightarrow> treeKey (m' a) = treeKey (m a)"
  shows "sorted_wrt (ins_order m' nn) (inorder (ins_tree m k nn t))"
  using assms(1,2)
proof (induction t)
  case Leaf
  then show ?case by simp
next
  case (Node l a r)
  note so = Node.prems(1)[unfolded search_order_Node]
  have nn: "nn \<noteq> a" "nn \<notin> set_tree l" "nn \<notin> set_tree r" using Node.prems(2) by auto
  have keq: "treeKey (m' x) = treeKey (m x)" if "x \<in> set_tree \<langle>l, a, r\<rangle>" for x
    using that Node.prems(2) assms(4)[of x] by auto
  have old: "ins_order m' nn x y \<longleftrightarrow> treeKey (m x) < treeKey (m y)"
    if "x \<noteq> nn" "y \<noteq> nn" for x y
    using that by (simp add: ins_order_def assms(4))
  have sl: "sorted_wrt (ins_order m' nn) (inorder l)"
  proof (rule sorted_wrt_mono_rel[of "inorder l" "\<lambda>x y. treeKey (m x) < treeKey (m y)"])
    show "sorted_wrt (\<lambda>x y. treeKey (m x) < treeKey (m y)) (inorder l)"
      using so by (simp add: search_order_wrt)
    fix x y assume "x \<in> set (inorder l)" "y \<in> set (inorder l)" "treeKey (m x) < treeKey (m y)"
    then show "ins_order m' nn x y" using nn(2) old[of x y] by auto
  qed
  have sr: "sorted_wrt (ins_order m' nn) (inorder r)"
  proof (rule sorted_wrt_mono_rel[of "inorder r" "\<lambda>x y. treeKey (m x) < treeKey (m y)"])
    show "sorted_wrt (\<lambda>x y. treeKey (m x) < treeKey (m y)) (inorder r)"
      using so by (simp add: search_order_wrt)
    fix x y assume "x \<in> set (inorder r)" "y \<in> set (inorder r)" "treeKey (m x) < treeKey (m y)"
    then show "ins_order m' nn x y" using nn(3) old[of x y] by auto
  qed
  show ?case
  proof (cases "k < treeKey (m a)")
    case True
    have IH: "sorted_wrt (ins_order m' nn) (inorder (ins_tree m k nn l))"
      using Node.IH(1) so nn by simp
    have a_r: "\<forall>y \<in> set_tree r. ins_order m' nn a y"
      using so nn by (auto simp: ins_order_def keq)
    have l_a: "\<forall>x \<in> set_tree (ins_tree m k nn l). ins_order m' nn x a"
      using so nn True by (auto simp: set_ins_tree ins_order_def assms(3) keq)
    have l_r: "\<forall>x \<in> set_tree (ins_tree m k nn l). \<forall>y \<in> set_tree r. ins_order m' nn x y"
    proof (intro ballI)
      fix x y assume x: "x \<in> set_tree (ins_tree m k nn l)" and y: "y \<in> set_tree r"
      have ya: "treeKey (m a) < treeKey (m y)" "y \<noteq> nn" using so y nn by auto
      have ky: "treeKey (m' y) = treeKey (m y)" using y by (simp add: keq)
      show "ins_order m' nn x y"
      proof (cases "x = nn")
        case True
        have "k < treeKey (m y)" using ya(1) \<open>k < treeKey (m a)\<close> by (rule less_trans[rotated])
        then show ?thesis using True ya(2) ky by (simp add: ins_order_def assms(3))
      next
        case False
        then have xl: "x \<in> set_tree l" using x by (simp add: set_ins_tree)
        then have "treeKey (m x) < treeKey (m a)" using so by auto
        then have "treeKey (m x) < treeKey (m y)" using ya(1) by (rule less_trans)
        moreover have "treeKey (m' x) = treeKey (m x)" using xl by (simp add: keq)
        ultimately show ?thesis using ya(2) ky by (simp add: ins_order_def)
      qed
    qed
    show ?thesis using True IH sr a_r l_a l_r by (simp add: sorted_wrt_append)
  next
    case False
    have IH: "sorted_wrt (ins_order m' nn) (inorder (ins_tree m k nn r))"
      using Node.IH(2) so nn by simp
    have l_a: "\<forall>x \<in> set_tree l. ins_order m' nn x a"
      using so nn by (auto simp: ins_order_def keq)
    have a_r: "\<forall>y \<in> set_tree (ins_tree m k nn r). ins_order m' nn a y"
      using so nn False by (auto simp: set_ins_tree ins_order_def assms(3) keq)
    have l_r: "\<forall>x \<in> set_tree l. \<forall>y \<in> set_tree (ins_tree m k nn r). ins_order m' nn x y"
    proof (intro ballI)
      fix x y assume x: "x \<in> set_tree l" and y: "y \<in> set_tree (ins_tree m k nn r)"
      have xa: "treeKey (m x) < treeKey (m a)" "x \<noteq> nn" using so x nn by auto
      have kx: "treeKey (m' x) = treeKey (m x)" using x by (simp add: keq)
      show "ins_order m' nn x y"
      proof (cases "y = nn")
        case True
        have "treeKey (m a) \<le> k" using \<open>\<not> k < treeKey (m a)\<close> by simp
        then have "treeKey (m x) \<le> k" using xa(1) by simp
        then show ?thesis using True kx by (simp add: ins_order_def assms(3))
      next
        case False
        then have yr: "y \<in> set_tree r" using y by (simp add: set_ins_tree)
        then have "treeKey (m a) < treeKey (m y)" using so by auto
        then have "treeKey (m x) < treeKey (m y)" using xa(1) by (simp add: less_trans)
        moreover have "treeKey (m' y) = treeKey (m y)" using yr by (simp add: keq)
        ultimately show ?thesis using False kx by (simp add: ins_order_def)
      qed
    qed
    show ?thesis using False IH sl a_r l_a l_r by (simp add: sorted_wrt_append)
  qed
qed

lemma bubble_ok:
  assumes "repr (mem s) (root s) None t" "distinct (inorder t)"
    "sorted_wrt (ins_order (mem s) nn) (inorder t)" "nn \<in> set_tree t" "depth_of t nn \<le> n"
  shows "\<exists>s' t'. treapAppend_bubble n s nn = Some s' \<and> repr (mem s') (root s') None t' \<and>
           inorder t' = inorder t"
  using assms
proof (induction n arbitrary: s t)
  case 0
  have "P (mem s nn) = None"
    using depth_zero_root[OF "0.prems"(1,2,4)] "0.prems"(5) by simp
  then show ?case using "0.prems"(1) by auto
next
  case (Suc n)
  note rep = Suc.prems(1) and dis = Suc.prems(2) and ord = Suc.prems(3) and nn = Suc.prems(4)
  show ?case
  proof (cases "P (mem s nn)")
    case None
    then show ?thesis using rep by auto
  next
    case (Some p)
    show ?thesis
    proof (cases "heapKey (mem s nn) > heapKey (mem s p)")
      case False
      then show ?thesis using Some rep by auto
    next
      case True
      define s' where "s' = treapRotate s p nn"
      have step: "treapAppend_bubble (Suc n) s nn = treapAppend_bubble n s' nn"
        using Some True by (simp add: s'_def)
      from repr_parent[OF rep dis nn] Some have pt: "p \<in> set_tree t"
        and pout: "p \<notin> set_tree (subtree_at t nn)"
        and ch: "L (mem s p) = Some nn \<or> R (mem s p) = Some nn" by auto
      have pn: "p \<noteq> nn" using pout subtree_at_in[OF nn] by auto
      have gn: "g \<noteq> nn" if "P (mem s p) = Some g" for g
      proof -
        have "g \<notin> set_tree (subtree_at t p)" using repr_parent[OF rep dis pt] that by auto
        moreover have "nn \<in> set_tree (subtree_at t p)" using repr_child[OF rep pt ch] by simp
        ultimately show ?thesis by auto
      qed
      have rep': "repr (mem s') (root s') None (rot_tree p nn t)"
        unfolding s'_def
      proof (rule rotate_repr_ord[OF rep dis pt ch ord])
        show "treeKey (mem s nn) < treeKey (mem s p)" if "ins_order (mem s) nn nn p"
          using that pn by (simp add: ins_order_def)
        show "\<not> treeKey (mem s nn) < treeKey (mem s p)" if "ins_order (mem s) nn p nn"
          using that by (simp add: ins_order_def)
        show "(ins_order (mem s) nn p g \<longrightarrow> treeKey (mem s p) < treeKey (mem s g)) \<and>
              (ins_order (mem s) nn g p \<longrightarrow> \<not> treeKey (mem s p) < treeKey (mem s g))"
          if "P (mem s p) = Some g" for g
          using gn[OF that] pn by (auto simp: ins_order_def)
      qed
      have io: "inorder (rot_tree p nn t) = inorder t" using inorder_rot_tree[OF dis pt] .
      have "ins_order (mem s') nn = ins_order (mem s) nn"
        by (intro ext) (simp add: ins_order_def s'_def rotate_keys)
      then have ord': "sorted_wrt (ins_order (mem s') nn) (inorder (rot_tree p nn t))"
        using ord io by simp
      have nn': "nn \<in> set_tree (rot_tree p nn t)"
        using set_rot_tree[OF dis pt] nn by simp
      have d: "depth_of (rot_tree p nn t) nn \<le> n"
        using depth_rot_tree[OF rep dis pt ch] Suc.prems(5) by simp
      have dis': "distinct (inorder (rot_tree p nn t))" using io dis by simp
      from Suc.IH[OF rep' dis' ord' nn' d] obtain s2 t2 where
        "treapAppend_bubble n s' nn = Some s2" "repr (mem s2) (root s2) None t2"
        "inorder t2 = inorder (rot_tree p nn t)" by blast
      then show ?thesis using step io by auto
    qed
  qed
qed

lemma append_terminates:
  assumes wf: "wf_treap s t" and nn: "nn \<notin> set_tree t" and n: "height t \<le> n"
  shows "\<exists>r. treapAppend n s k hk nn = Some r"
proof -
  have rep: "repr (mem s) (root s) None t" and so: "search_order (mem s) t"
    using wf by (simp_all add: wf_treap_def)
  have dis: "distinct (inorder t)" using so by (rule search_order_distinct)
  show ?thesis
  proof (cases "root s")
    case None
    define s2 where "s2 = s\<lparr>mem := (mem s)(nn :=
        \<lparr>treeKey = k, heapKey = hk, L = None, R = None, P = None\<rparr>), root := Some nn\<rparr>"
    have "P (mem s2 nn) = None" by (simp add: s2_def)
    then have "treapAppend_bubble n s2 nn = Some s2" by (cases n) auto
    then show ?thesis using None by (simp add: treapAppend_def treapAppend_link_def s2_def)
  next
    case (Some c)
    then have tn: "t \<noteq> \<langle>\<rangle>" using rep by auto
    then obtain cur where cur: "seek_tree (mem s) k t = Some cur" using seek_tree_Some by blast
    have sk: "treapAppend_seek n (mem s) c k = Some cur"
      using seek_ok[of "mem s" c None t n k] rep Some n cur by simp
    have ct: "cur \<in> set_tree t" using seek_tree_in[OF cur] .
    have cn: "cur \<noteq> nn" using ct nn by auto
    show ?thesis
    proof (cases "k = treeKey (mem s cur)")
      case True
      then show ?thesis using Some sk by (simp add: treapAppend_def)
    next
      case False
      define m' where "m' = ((mem s)(nn :=
            \<lparr>treeKey = k, heapKey = hk, L = None, R = None, P = Some cur\<rparr>))
             (cur := (if k < treeKey (mem s cur) then (mem s cur)\<lparr>L := Some nn\<rparr>
                      else (mem s cur)\<lparr>R := Some nn\<rparr>))"
      define s2 where "s2 = s\<lparr>mem := m'\<rparr>"
      have s2eq: "slot_write (s\<lparr>mem := (mem s)(nn :=
            \<lparr>treeKey = k, heapKey = hk, L = None, R = None, P = Some cur\<rparr>)\<rparr>)
          (if k < treeKey (mem s cur) then LSlot cur else RSlot cur) (Some nn) = s2"
        using cn by (simp add: s2_def m'_def set_L_def set_R_def)
      have link: "treapAppend n s k hk nn =
          (case treapAppend_bubble n s2 nn of None \<Rightarrow> None | Some s3 \<Rightarrow> Some (s3, nn))"
        using Some sk False by (simp add: treapAppend_def treapAppend_link_def Let_def s2eq)
      let ?t = "ins_tree (mem s) k nn t"
      have rep2: "repr (mem s2) (root s2) None ?t"
        using link_repr[OF rep dis nn cur m'_def] by (simp add: s2_def)
      have dis2: "distinct (inorder ?t)" using distinct_ins_tree[OF dis nn] .
      have k2: "treeKey (mem s2 nn) = k" "\<And>a. a \<noteq> nn \<Longrightarrow> treeKey (mem s2 a) = treeKey (mem s a)"
        using cn by (auto simp: s2_def m'_def)
      have ord2: "sorted_wrt (ins_order (mem s2) nn) (inorder ?t)"
        using ins_order_sorted[OF so nn k2] .
      have nn2: "nn \<in> set_tree ?t" by (simp add: set_ins_tree)
      have d2: "depth_of ?t nn \<le> n" using depth_ins_tree[OF nn, of "mem s" k] n by simp
      from bubble_ok[OF rep2 dis2 ord2 nn2 d2] obtain s3 where
        "treapAppend_bubble n s2 nn = Some s3" by blast
      then show ?thesis using link by simp
    qed
  qed
qed

text \<open>The seven-node example is what \<open>treapAppend\<close> builds from the empty treap as well.\<close>

lemma seven_treap_built:
  "\<exists>s1 s2 s3 s4 s5 s6.
     treapAppend 1 empty_treap 10 100 1 = Some (s1, 1) \<and>
     treapAppend 1 s1 1 90 2 = Some (s2, 2) \<and>
     treapAppend 2 s2 2 80 3 = Some (s3, 3) \<and>
     treapAppend 3 s3 3 70 4 = Some (s4, 4) \<and>
     treapAppend 3 s4 20 85 5 = Some (s5, 5) \<and>
     treapAppend 3 s5 19 75 6 = Some (s6, 6) \<and>
     treapAppend 3 s6 18 65 7 = Some (seven_treap, 7)"
  by (simp add: model_defs empty_treap_def seven_treap_def node0_def fun_eq_iff)

section \<open>treapFind needs the child links only\<close>

lemma repr_tree_links: "repr m p par t \<Longrightarrow> tree_links m p t"
  by (induction t arbitrary: p par) auto

lemma tree_links_unique: "tree_links m p t \<Longrightarrow> tree_links m p t' \<Longrightarrow> t = t'"
proof (induction t arbitrary: p t')
  case Leaf then show ?case by (cases t') auto
next
  case (Node l a r) then show ?case by (cases t') auto
qed

lemma find_found_links:
  "tree_links m p t \<Longrightarrow> search_order m t \<Longrightarrow> a \<in> set_tree t \<Longrightarrow> treeKey (m a) = k \<Longrightarrow>
   depth_of t a < n \<Longrightarrow> treapFind_loop n m p k = Some (Some a)"
proof (induction t arbitrary: p n)
  case Leaf
  then show ?case by simp
next
  case (Node l x r)
  obtain n' where n: "n = Suc n'" using Node.prems(5) by (cases n) auto
  have px: "p = Some x" "tree_links m (L (m x)) l" "tree_links m (R (m x)) r"
    using Node.prems(1) by auto
  note so = Node.prems(2)[unfolded search_order_Node]
  show ?case
  proof (cases "x = a")
    case True
    then show ?thesis using px n Node.prems(4) by simp
  next
    case False
    show ?thesis
    proof (cases "a \<in> set_tree l")
      case True
      then have "k < treeKey (m x)" using so Node.prems(4) by auto
      moreover have "treapFind_loop n' m (L (m x)) k = Some (Some a)"
        using Node.IH(1)[OF px(2) _ True Node.prems(4)] so Node.prems(5) False True n by simp
      ultimately show ?thesis using px n by simp
    next
      case al: False
      then have ar: "a \<in> set_tree r" using Node.prems(3) False by simp
      then have "treeKey (m x) < k" using so Node.prems(4) by auto
      then have "\<not> k < treeKey (m x)" "treeKey (m x) < k" by auto
      moreover have "treapFind_loop n' m (R (m x)) k = Some (Some a)"
        using Node.IH(2)[OF px(3) _ ar Node.prems(4)] so Node.prems(5) False al n by simp
      ultimately show ?thesis using px n by simp
    qed
  qed
qed

lemma find_absent_links:
  "tree_links m p t \<Longrightarrow> \<forall>a \<in> set_tree t. treeKey (m a) \<noteq> k \<Longrightarrow> height t \<le> n \<Longrightarrow>
   treapFind_loop n m p k = Some None"
proof (induction t arbitrary: p n)
  case Leaf
  then show ?case by simp
next
  case (Node l x r)
  obtain n' where n: "n = Suc n'" using Node.prems(3) by (cases n) auto
  have px: "p = Some x" "tree_links m (L (m x)) l" "tree_links m (R (m x)) r"
    using Node.prems(1) by auto
  have "treapFind_loop n' m (L (m x)) k = Some None"
    using Node.IH(1)[OF px(2)] Node.prems(2,3) n by simp
  moreover have "treapFind_loop n' m (R (m x)) k = Some None"
    using Node.IH(2)[OF px(3)] Node.prems(2,3) n by simp
  ultimately show ?case using px n Node.prems(2) by auto
qed

section \<open>The claims\<close>

text \<open>
  C1 (heap order after every public operation, in particular after \<open>treapUsurpingFind\<close>'s
  priority swap and rotation). Evaluated on the three-node treap with keys 5, 3, 8 and
  priorities 30, 10, 20, which satisfies every invariant: \<open>treapUsurpingFind\<close> of key 3 swaps
  the priorities of node 2 and its parent node 1 and rotates node 2 to the root. Node 1 now
  holds priority 10 and keeps its right child node 3 of priority 20, so the resulting state,
  still a well-formed search tree, is not in heap order.
\<close>

theorem C1_usurpingFind_breaks_heap_order:
  "treap_inv three_treap three_shape \<and>
   (\<exists>s'. treapUsurpingFind 2 three_treap 3 = Some (s', Some 2) \<and>
      wf_treap s' three_promoted_shape \<and>
      R (mem s' 1) = Some 3 \<and> heapKey (mem s' 1) = 10 \<and> heapKey (mem s' 3) = 20 \<and>
      \<not> heap_order (mem s') three_promoted_shape)"
  by (simp add: model_defs inv_defs three_treap_def)

text \<open>
  C2 (inserting a key that is present returns the existing node and changes nothing).
  Evaluated on the treap with key 1 at the root (address 1) and key 2 as its right child:
  the descent of \<open>treapAppend\<close> for key 1 goes right at the node with key 1, ends at the
  node with key 2, and a new node (address 3) with key 1 is linked as its left child.
  The handle returned is 3, not 1, and the in-order key sequence becomes 1, 1, 2.
\<close>

theorem C2_append_present_key_adds_node:
  "treap_inv dup_treap dup_shape \<and> treeKey (mem dup_treap 1) = 1 \<and>
   (\<exists>s'. treapAppend 2 dup_treap 1 3 3 = Some (s', 3) \<and>
      repr (mem s') (root s') None dup_after_shape \<and>
      keys_inorder (mem s') dup_after_shape = [1, 1, 2] \<and>
      L (mem s' 2) \<noteq> L (mem dup_treap 2))"
  by (simp add: model_defs inv_defs dup_treap_def)

text \<open>
  C3 (every treap built from the empty one by inserts and decouples is in strict search
  order). Evaluated on the sequence insert 1, insert 2, insert 1 from the empty treap, with
  priorities 10, 5, 3: the state reached has the in-order key sequence 1, 1, 2, which is
  not strictly ascending; the right subtree of the root (key 1) holds key 1.
\<close>

theorem C3_inserts_reach_unordered_treap:
  "\<exists>s1 s2 s3.
     treapAppend 1 empty_treap 1 10 1 = Some (s1, 1) \<and>
     treapAppend 1 s1 2 5 2 = Some (s2, 2) \<and>
     treapAppend 2 s2 1 3 3 = Some (s3, 3) \<and>
     repr (mem s3) (root s3) None dup_after_shape \<and>
     keys_inorder (mem s3) dup_after_shape = [1, 1, 2] \<and>
     \<not> search_order (mem s3) dup_after_shape"
  by (simp add: model_defs inv_defs empty_treap_def node0_def)

text \<open>
  C5 (find after insert returns the handle insert returned; after decoupling that handle,
  find reports not-found). Evaluated on the same treap as C2: \<open>treapAppend\<close> of key 1
  returns the new node 3, \<open>treapFind\<close> of key 1 then returns node 1, and after
  \<open>treapDecouple\<close> of node 3 \<open>treapFind\<close> of key 1 still returns node 1.
\<close>

theorem C5_find_after_append_other_handle:
  "treap_inv dup_treap dup_shape \<and>
   (\<exists>s'. treapAppend 2 dup_treap 1 3 3 = Some (s', 3) \<and>
      treapFind 3 s' 1 = Some (Some 1) \<and>
      (\<exists>s''. treapDecouple 2 s' 3 = Some s'' \<and> treapFind 3 s'' 1 = Some (Some 1)))"
  by (simp add: model_defs inv_defs dup_treap_def)

text \<open>
  C8 (\<open>treapFind\<close> returns the unique node with the key when there is one, and the
  not-found signal when the treap is empty or no node has the key; it mutates nothing).
  The hypotheses are the search-order and uniqueness invariants alone: the child links
  from the root form a tree of shape \<open>t\<close> whose in-order key sequence is strictly ascending.
  Nothing is asked of the parent links or of the priorities, which \<open>treapFind\<close> never reads.
  With fuel at least the height of \<open>t\<close>, \<open>treapFind\<close> returns (it does not run out of
  fuel); when a node \<open>a\<close> of the treap has key \<open>k\<close> the result is \<open>a\<close>, and \<open>a\<close> is the only
  node with that key; when no node has key \<open>k\<close>, and when the root is \<open>NULL\<close>, the result is
  \<open>NULL\<close>. That nothing is mutated is in the type of \<open>treapFind\<close>: the source function has no
  assignment to a node or to the treap, so its model returns the pointer alone.
\<close>

theorem C8_find_correct:
  assumes "tree_links (mem s) (root s) t" "search_order (mem s) t" "height t \<le> n"
  shows "(\<forall>a \<in> set_tree t. treeKey (mem s a) = k \<longrightarrow>
            treapFind n s k = Some (Some a) \<and>
            (\<forall>b \<in> set_tree t. treeKey (mem s b) = k \<longrightarrow> b = a)) \<and>
         ((\<forall>a \<in> set_tree t. treeKey (mem s a) \<noteq> k) \<longrightarrow> treapFind n s k = Some None) \<and>
         (root s = None \<longrightarrow> treapFind n s k = Some None)"
proof -
  note lk = assms(1) and so = assms(2)
  have "treapFind n s k = Some (Some a)" if "a \<in> set_tree t" "treeKey (mem s a) = k" for a
    unfolding treapFind_def
    using find_found_links[OF lk so that] depth_lt_height[OF that(1)] assms(3) by simp
  moreover have "b = a"
    if "a \<in> set_tree t" "treeKey (mem s a) = k" "b \<in> set_tree t" "treeKey (mem s b) = k" for a b
    using search_order_unique[OF so that(3) that(1)] that by simp
  moreover have "treapFind n s k = Some None" if "\<forall>a \<in> set_tree t. treeKey (mem s a) \<noteq> k"
    unfolding treapFind_def using find_absent_links[OF lk that assms(3)] .
  moreover have "treapFind n s k = Some None" if "root s = None"
    using that by (simp add: treapFind_def)
  ultimately show ?thesis by blast
qed

theorem C8_find_correct_witness:
  "tree_links (mem three_treap) (root three_treap) three_shape \<and>
   search_order (mem three_treap) three_shape \<and>
   height three_shape \<le> 2 \<and>
   treeKey (mem three_treap 3) = 8 \<and> treapFind 2 three_treap 8 = Some (Some 3) \<and>
   treeKey (mem three_treap 1) \<noteq> 4 \<and> treeKey (mem three_treap 2) \<noteq> 4 \<and>
   treeKey (mem three_treap 3) \<noteq> 4 \<and>
   treapFind 2 three_treap 4 = Some None"
proof -
  let ?t = three_shape
  have lk: "tree_links (mem three_treap) (root three_treap) ?t"
    by (simp add: three_treap_def shape_defs)
  have so: "search_order (mem three_treap) ?t" by (simp add: inv_defs three_treap_def)
  have h: "height ?t \<le> 2" by (simp add: shape_defs)
  have k: "treeKey (mem three_treap 3) = 8" by (simp add: three_treap_def)
  have a: "3 \<in> set_tree ?t" by (simp add: shape_defs)
  have ab: "\<forall>a \<in> set_tree ?t. treeKey (mem three_treap a) \<noteq> 4"
    by (simp add: three_treap_def shape_defs)
  have "treapFind 2 three_treap 8 = Some (Some 3)"
    using C8_find_correct[OF lk so h, of 8] a k by blast
  moreover have "treapFind 2 three_treap 4 = Some None"
    using C8_find_correct[OF lk so h, of 4] ab by blast
  ultimately show ?thesis using lk so h k ab by (simp add: shape_defs)
qed

text \<open>
  C10 (\<open>treapUsurpingFind\<close> on an absent key, or on the root's key, changes nothing).
  For a state whose root pointer reaches a tree of shape \<open>t\<close> with consistent back-links
  (the root's parent being \<open>NULL\<close>) and fuel at least the height of \<open>t\<close>: when no node has
  key \<open>k\<close>, or the root has key \<open>k\<close>, \<open>treapUsurpingFind\<close> returns the very same state,
  with \<open>NULL\<close> in the first case and the root in the second. Search order and heap order
  are not needed.
\<close>

theorem C10_usurpingFind_unchanged:
  assumes "repr (mem s) (root s) None t" "height t \<le> n"
    "(\<forall>a \<in> set_tree t. treeKey (mem s a) \<noteq> k) \<or> (\<exists>r. root s = Some r \<and> treeKey (mem s r) = k)"
  shows "treapUsurpingFind n s k =
           Some (s, if \<forall>a \<in> set_tree t. treeKey (mem s a) \<noteq> k then None else root s)"
proof (cases "\<forall>a \<in> set_tree t. treeKey (mem s a) \<noteq> k")
  case True
  then have "treapFind n s k = Some None"
    unfolding treapFind_def using find_absent[OF assms(1) _ assms(2)] by simp
  then show ?thesis using True by (simp add: treapUsurpingFind_def)
next
  case False
  then obtain r where r: "root s = Some r" "treeKey (mem s r) = k" using assms(3) by auto
  obtain l r' where t: "t = \<langle>l, r, r'\<rangle>" using assms(1) r(1) by (cases t) auto
  obtain n' where n: "n = Suc n'" using assms(2) t by (cases n) auto
  have "treapFind n s k = Some (Some r)" using r n by (simp add: treapFind_def)
  moreover have "P (mem s r) = None" using assms(1) t by simp
  ultimately show ?thesis using False r by (simp add: treapUsurpingFind_def)
qed

theorem C10_usurpingFind_unchanged_witness:
  "repr (mem three_treap) (root three_treap) None three_shape \<and>
   height three_shape \<le> 2 \<and>
   root three_treap = Some 1 \<and> treeKey (mem three_treap 1) = 5 \<and>
   treapUsurpingFind 2 three_treap 5 = Some (three_treap, Some 1) \<and>
   treeKey (mem three_treap 1) \<noteq> 4 \<and> treeKey (mem three_treap 2) \<noteq> 4 \<and>
   treeKey (mem three_treap 3) \<noteq> 4 \<and>
   treapUsurpingFind 2 three_treap 4 = Some (three_treap, None)"
proof -
  let ?t = three_shape
  have rep: "repr (mem three_treap) (root three_treap) None ?t"
    by (simp add: three_treap_def shape_defs)
  have h: "height ?t \<le> 2" by (simp add: shape_defs)
  have r: "root three_treap = Some 1" "treeKey (mem three_treap 1) = 5"
    by (simp_all add: three_treap_def)
  have ab: "\<forall>a \<in> set_tree ?t. treeKey (mem three_treap a) \<noteq> 4"
    by (simp add: three_treap_def shape_defs)
  have nab: "\<not> (\<forall>a \<in> set_tree ?t. treeKey (mem three_treap a) \<noteq> 5)"
    by (simp add: three_treap_def shape_defs)
  have "treapUsurpingFind 2 three_treap 5 = Some (three_treap, Some 1)"
    using C10_usurpingFind_unchanged[OF rep h, of 5] r nab by simp
  moreover have "treapUsurpingFind 2 three_treap 4 = Some (three_treap, None)"
    using C10_usurpingFind_unchanged[OF rep h, of 4] ab by simp
  ultimately show ?thesis using rep h r ab by (simp add: shape_defs)
qed

text \<open>
  C4 (\<open>treapRotate\<close> on a node \<open>rt\<close> and one of its children \<open>pv\<close>). For a well-formed
  treap of shape \<open>t\<close> (back-links consistent, keys in strict search order):
  \<^item> the key comparison picks the side \<open>pv\<close> is on: \<open>pv\<close>'s key is smaller exactly when
    \<open>pv\<close> is the left child;
  \<^item> in that case (right-rotation) \<open>pv\<close>'s old right subtree becomes \<open>rt\<close>'s left subtree,
    with its root's parent link set to \<open>rt\<close>, and \<open>rt\<close> becomes \<open>pv\<close>'s right child;
    otherwise (left-rotation) the mirror image;
  \<^item> \<open>pv\<close> takes \<open>rt\<close>'s old parent link and \<open>rt\<close>'s parent becomes \<open>pv\<close>;
  \<^item> the slot that referenced \<open>rt\<close>, the treap's root slot or a child slot of a node of
    the treap, now references \<open>pv\<close>;
  \<^item> the result is a well-formed treap of shape \<open>rot_tree rt pv t\<close>, and its in-order
    key sequence is that of the treap before.
\<close>

theorem C4_rotate:
  assumes wf: "wf_treap s t" and rt: "rt \<in> set_tree t"
    and ch: "L (mem s rt) = Some pv \<or> R (mem s rt) = Some pv"
  shows "(let s' = treapRotate s rt pv in
          (treeKey (mem s pv) < treeKey (mem s rt) \<longleftrightarrow> L (mem s rt) = Some pv) \<and>
          (treeKey (mem s pv) < treeKey (mem s rt) \<longrightarrow>
             L (mem s' rt) = R (mem s pv) \<and> R (mem s' pv) = Some rt \<and>
             (\<forall>c. R (mem s pv) = Some c \<longrightarrow> P (mem s' c) = Some rt)) \<and>
          (\<not> treeKey (mem s pv) < treeKey (mem s rt) \<longrightarrow>
             R (mem s' rt) = L (mem s pv) \<and> L (mem s' pv) = Some rt \<and>
             (\<forall>c. L (mem s pv) = Some c \<longrightarrow> P (mem s' c) = Some rt)) \<and>
          P (mem s' pv) = P (mem s rt) \<and>
          P (mem s' rt) = Some pv \<and>
          (root s = Some rt \<longrightarrow> root s' = Some pv) \<and>
          (root s \<noteq> Some rt \<longrightarrow> root s' = root s) \<and>
          (\<forall>g \<in> set_tree t.
             (L (mem s g) = Some rt \<longrightarrow> L (mem s' g) = Some pv) \<and>
             (R (mem s g) = Some rt \<longrightarrow> R (mem s' g) = Some pv)) \<and>
          wf_treap s' (rot_tree rt pv t) \<and>
          keys_inorder (mem s') (rot_tree rt pv t) = keys_inorder (mem s) t)"
proof -
  define s' where "s' = treapRotate s rt pv"
  have rep: "repr (mem s) (root s) None t" and so: "search_order (mem s) t"
    using wf by (simp_all add: wf_treap_def)
  have dis: "distinct (inorder t)" using so by (rule search_order_distinct)
  have side: "treeKey (mem s pv) < treeKey (mem s rt) \<longleftrightarrow> L (mem s rt) = Some pv"
    using wf_sides[OF wf rt ch] .
  have rootp: "P (mem s rt) = None \<longleftrightarrow> root s = Some rt"
    using root_iff_no_parent[OF rep dis rt] .
  have wf': "wf_treap s' (rot_tree rt pv t)"
    unfolding s'_def using rotate_wf[OF wf rt ch] .
  have keys: "keys_inorder (mem s') (rot_tree rt pv t) = keys_inorder (mem s) t"
    by (simp add: keys_inorder_def s'_def rotate_keys inorder_rot_tree[OF dis rt])
  have gp: "P (mem s rt) = Some g \<and> g \<in> set_tree t \<and>
            (treeKey (mem s rt) < treeKey (mem s g) \<longleftrightarrow> L (mem s g) = Some rt)"
    if "g \<in> set_tree t" "L (mem s g) = Some rt \<or> R (mem s g) = Some rt" for g
    using repr_child[OF rep that] wf_sides[OF wf that] that(1) by simp
  have nb: "\<not> (L (mem s g) = Some rt \<and> R (mem s g) = Some rt)" if "g \<in> set_tree t" for g
    using repr_children_differ(1)[OF rep dis that, of rt] by auto
  have main: "(treeKey (mem s pv) < treeKey (mem s rt) \<longrightarrow>
             L (mem s' rt) = R (mem s pv) \<and> R (mem s' pv) = Some rt \<and>
             (\<forall>c. R (mem s pv) = Some c \<longrightarrow> P (mem s' c) = Some rt)) \<and>
          (\<not> treeKey (mem s pv) < treeKey (mem s rt) \<longrightarrow>
             R (mem s' rt) = L (mem s pv) \<and> L (mem s' pv) = Some rt \<and>
             (\<forall>c. L (mem s pv) = Some c \<longrightarrow> P (mem s' c) = Some rt)) \<and>
          P (mem s' pv) = P (mem s rt) \<and>
          P (mem s' rt) = Some pv \<and>
          (root s = Some rt \<longrightarrow> root s' = Some pv) \<and>
          (root s \<noteq> Some rt \<longrightarrow> root s' = root s) \<and>
          (\<forall>g \<in> set_tree t.
             (L (mem s g) = Some rt \<longrightarrow> L (mem s' g) = Some pv) \<and>
             (R (mem s g) = Some rt \<longrightarrow> R (mem s' g) = Some pv))"
  proof (cases "treeKey (mem s pv) < treeKey (mem s rt)")
    case True
    then have lc: "L (mem s rt) = Some pv" using side by simp
    note e = rotate_right_eqs[OF rep dis rt lc True, folded s'_def]
    have f1: "L (mem s' rt) = R (mem s pv)" "R (mem s' pv) = Some rt"
      "P (mem s' pv) = P (mem s rt)" "P (mem s' rt) = Some pv"
      using e(3) by (simp_all add: e(1))
    have f2: "P (mem s' c) = Some rt" if "R (mem s pv) = Some c" for c
      using that e(3-5) by (auto simp: e(1))
    have f3: "root s = Some rt \<longrightarrow> root s' = Some pv" "root s \<noteq> Some rt \<longrightarrow> root s' = root s"
      using rootp by (auto simp: e(2))
    have f4: "(L (mem s g) = Some rt \<longrightarrow> L (mem s' g) = Some pv) \<and>
              (R (mem s g) = Some rt \<longrightarrow> R (mem s' g) = Some pv)" if g: "g \<in> set_tree t" for g
    proof (cases "L (mem s g) = Some rt \<or> R (mem s g) = Some rt")
      case False
      then show ?thesis by simp
    next
      case lr: True
      note gp[OF g lr]
      then show ?thesis using e(3-8) lr nb[OF g] by (auto simp: e(1))
    qed
    show ?thesis using True f1 f2 f3 f4 by blast
  next
    case False
    then have rc: "R (mem s rt) = Some pv" using side ch by simp
    note e = rotate_left_eqs[OF rep dis rt rc False, folded s'_def]
    have f1: "R (mem s' rt) = L (mem s pv)" "L (mem s' pv) = Some rt"
      "P (mem s' pv) = P (mem s rt)" "P (mem s' rt) = Some pv"
      using e(3) by (simp_all add: e(1))
    have f2: "P (mem s' c) = Some rt" if "L (mem s pv) = Some c" for c
      using that e(3-5) by (auto simp: e(1))
    have f3: "root s = Some rt \<longrightarrow> root s' = Some pv" "root s \<noteq> Some rt \<longrightarrow> root s' = root s"
      using rootp by (auto simp: e(2))
    have f4: "(L (mem s g) = Some rt \<longrightarrow> L (mem s' g) = Some pv) \<and>
              (R (mem s g) = Some rt \<longrightarrow> R (mem s' g) = Some pv)" if g: "g \<in> set_tree t" for g
    proof (cases "L (mem s g) = Some rt \<or> R (mem s g) = Some rt")
      case False
      then show ?thesis by simp
    next
      case lr: True
      note gp[OF g lr]
      then show ?thesis using e(3-8) lr nb[OF g] by (auto simp: e(1))
    qed
    show ?thesis using False f1 f2 f3 f4 by blast
  qed
  show ?thesis
    unfolding Let_def s'_def[symmetric] using side main wf' keys by blast
qed

theorem C4_rotate_witness:
  "wf_treap three_treap three_shape \<and>
   (1::addr) \<in> set_tree three_shape \<and>
   L (mem three_treap 1) = Some 2 \<and>
   treeKey (mem three_treap 2) < treeKey (mem three_treap 1) \<and>
   L (mem (treapRotate three_treap 1 2) 1) = None \<and>
   R (mem (treapRotate three_treap 1 2) 2) = Some 1 \<and>
   P (mem (treapRotate three_treap 1 2) 2) = None \<and>
   P (mem (treapRotate three_treap 1 2) 1) = Some 2 \<and>
   root (treapRotate three_treap 1 2) = Some 2 \<and>
   wf_treap (treapRotate three_treap 1 2) three_promoted_shape \<and>
   keys_inorder (mem (treapRotate three_treap 1 2)) three_promoted_shape = [3, 5, 8]"
proof -
  let ?t = three_shape
  have wf: "wf_treap three_treap ?t" by (simp add: inv_defs three_treap_def)
  have rt: "1 \<in> set_tree ?t" by (simp add: shape_defs)
  have ch: "L (mem three_treap 1) = Some 2 \<or> R (mem three_treap 1) = Some 2"
    by (simp add: three_treap_def)
  have f: "L (mem three_treap 1) = Some 2" "R (mem three_treap 2) = None"
    "P (mem three_treap 1) = None" "root three_treap = Some 1"
    "treeKey (mem three_treap 2) < treeKey (mem three_treap 1)"
    "keys_inorder (mem three_treap) ?t = [3, 5, 8]"
    by (simp_all add: three_treap_def keys_inorder_def shape_defs)
  have rot: "rot_tree 1 2 ?t = three_promoted_shape"
    by (simp add: rot_tree_def shape_defs)
  show ?thesis
    using C4_rotate[OF wf rt ch] wf rt f rot by (simp add: Let_def)
qed

text \<open>
  C7 (promotion by \<open>treapUsurpingFind\<close>), as amended. For a well-formed treap of shape \<open>t\<close>,
  a node \<open>a\<close> of it with key \<open>k\<close> that is not the root, and fuel above the depth of \<open>a\<close>:
  one call of \<open>treapUsurpingFind\<close> for \<open>k\<close> returns \<open>a\<close> and leaves a well-formed treap, with
  the same nodes, in which the depth of \<open>a\<close> is exactly one less; and \<open>j\<close> calls in a row
  leave a well-formed treap in which the depth of \<open>a\<close> is its old depth minus \<open>j\<close>
  (cut off at 0): the node rises one level per call until it is the root and then stays there.
  No priority is compared on the way: the claim's second stopping condition, the parent's
  priority exceeding the node's own, is not in the code (see the counterexample below).
\<close>

theorem C7_usurping_promotes:
  assumes "wf_treap s t" "a \<in> set_tree t" "treeKey (mem s a) = k" "depth_of t a < n"
    "root s \<noteq> Some a"
  shows "(\<exists>s' t'. treapUsurpingFind n s k = Some (s', Some a) \<and> wf_treap s' t' \<and>
            set_tree t' = set_tree t \<and> Suc (depth_of t' a) = depth_of t a) \<and>
         (\<forall>j. \<exists>s' t'. usurp_times j n s k = Some s' \<and> wf_treap s' t' \<and>
            set_tree t' = set_tree t \<and> depth_of t' a = depth_of t a - j)"
proof -
  have rep: "repr (mem s) (root s) None t" and so: "search_order (mem s) t"
    using assms(1) by (simp_all add: wf_treap_def)
  have dis: "distinct (inorder t)" using so by (rule search_order_distinct)
  have pos: "0 < depth_of t a"
    using depth_zero_root[OF rep dis assms(2)] root_iff_no_parent[OF rep dis assms(2)] assms(5)
    by auto
  from usurp_step[OF assms(1-4)] obtain s1 t1 where
    s1: "treapUsurpingFind n s k = Some (s1, Some a)" "wf_treap s1 t1"
      "inorder t1 = inorder t" "depth_of t1 a = depth_of t a - 1"
    by blast
  have "set_tree t1 = set_tree t" using s1(3) by (metis set_inorder)
  moreover have "Suc (depth_of t1 a) = depth_of t a" using s1(4) pos by simp
  ultimately have one: "\<exists>s' t'. treapUsurpingFind n s k = Some (s', Some a) \<and> wf_treap s' t' \<and>
            set_tree t' = set_tree t \<and> Suc (depth_of t' a) = depth_of t a"
    using s1(1,2) by blast
  have many: "\<exists>s' t'. usurp_times j n s k = Some s' \<and> wf_treap s' t' \<and>
            set_tree t' = set_tree t \<and> depth_of t' a = depth_of t a - j" for j
  proof -
    from usurp_times_depth[OF assms(1-4), of j] obtain s' t' where
      h: "usurp_times j n s k = Some s'" "wf_treap s' t'" "inorder t' = inorder t"
        "depth_of t' a = depth_of t a - j" by blast
    have "set_tree t' = set_tree t" using h(3) by (metis set_inorder)
    then show ?thesis using h by blast
  qed
  show ?thesis using one many by blast
qed

theorem C7_usurping_promotes_witness:
  "wf_treap three_treap three_shape \<and>
   (2::addr) \<in> set_tree three_shape \<and>
   treeKey (mem three_treap 2) = 3 \<and>
   depth_of three_shape 2 = 1 \<and>
   root three_treap = Some 1 \<and>
   (\<exists>s' t'. treapUsurpingFind 2 three_treap 3 = Some (s', Some 2) \<and> wf_treap s' t' \<and>
        depth_of t' 2 = 0) \<and>
   (\<exists>s' t'. usurp_times 4 2 three_treap 3 = Some s' \<and> wf_treap s' t' \<and> depth_of t' 2 = 0)"
proof -
  let ?t = three_shape
  have wf: "wf_treap three_treap ?t" by (simp add: inv_defs three_treap_def)
  have a: "2 \<in> set_tree ?t" by (simp add: shape_defs)
  have k: "treeKey (mem three_treap 2) = 3" by (simp add: three_treap_def)
  have d: "depth_of ?t 2 = 1" by (simp add: shape_defs)
  have n: "depth_of ?t 2 < 2" by (simp add: shape_defs)
  have r: "root three_treap = Some 1" by (simp add: three_treap_def)
  have nr: "root three_treap \<noteq> Some 2" by (simp add: three_treap_def)
  note th = C7_usurping_promotes[OF wf a k n nr]
  have one: "\<exists>s' t'. treapUsurpingFind 2 three_treap 3 = Some (s', Some 2) \<and> wf_treap s' t' \<and>
        depth_of t' 2 = 0"
    using th d by auto
  from th have "\<exists>s' t'. usurp_times 4 2 three_treap 3 = Some s' \<and> wf_treap s' t' \<and>
      set_tree t' = set_tree ?t \<and> depth_of t' 2 = depth_of ?t 2 - 4" by blast
  then have many: "\<exists>s' t'. usurp_times 4 2 three_treap 3 = Some s' \<and> wf_treap s' t' \<and>
      depth_of t' 2 = 0"
    using d by auto
  show ?thesis using wf a k d r one many by blast
qed

text \<open>
  C7 as stated fails in its stopping condition. In the seven-node example the node with
  key 3 (address 4, priority 70) is three levels below the root. The first call of
  \<open>treapUsurpingFind\<close> for key 3 lifts it one level and leaves a treap that satisfies all
  the invariants, in which the node has priority 80 and its parent (address 2) priority 90:
  the node is not the root and its parent's priority exceeds its own, the state in which
  the claim has the promotion come to rest. The second call nevertheless returns the node
  and rotates it above that parent: it is then a child of the root, one level below it.
\<close>

theorem C7_stop_condition_counterexample:
  "treap_inv seven_treap seven_shape \<and>
   treeKey (mem seven_treap 4) = 3 \<and>
   depth_of seven_shape 4 = 3 \<and>
   usurp_times (Suc 0) 4 seven_treap 3 \<noteq> None \<and>
   treap_inv (the (usurp_times (Suc 0) 4 seven_treap 3)) seven_once_shape \<and>
   depth_of seven_once_shape 4 = 2 \<and>
   treeKey (mem (the (usurp_times (Suc 0) 4 seven_treap 3)) 4) = 3 \<and>
   P (mem (the (usurp_times (Suc 0) 4 seven_treap 3)) 4) = Some 2 \<and>
   heapKey (mem (the (usurp_times (Suc 0) 4 seven_treap 3)) 4) = 80 \<and>
   heapKey (mem (the (usurp_times (Suc 0) 4 seven_treap 3)) 2) = 90 \<and>
   treapUsurpingFind 4 (the (usurp_times (Suc 0) 4 seven_treap 3)) 3 \<noteq> None \<and>
   snd (the (treapUsurpingFind 4 (the (usurp_times (Suc 0) 4 seven_treap 3)) 3)) = Some 4 \<and>
   wf_treap (fst (the (treapUsurpingFind 4 (the (usurp_times (Suc 0) 4 seven_treap 3)) 3)))
     seven_twice_shape \<and>
   depth_of seven_twice_shape 4 = 1 \<and>
   P (mem (fst (the (treapUsurpingFind 4 (the (usurp_times (Suc 0) 4 seven_treap 3)) 3))) 4) =
     Some 1"
  by (simp add: model_defs inv_defs seven_treap_def)

text \<open>
  C6 (the state \<open>treapDecouple\<close> leaves), as amended. For a well-formed treap of shape \<open>t\<close>,
  a node \<open>x\<close> of it, and fuel at least twice the height of \<open>t\<close>: the rotation loop ends in
  a well-formed state \<open>s1\<close> with the same nodes in which \<open>x\<close> has at most one child (it is
  the starting state when \<open>x\<close> has at most one child to begin with), and \<open>treapDecouple\<close>
  returns a state \<open>s'\<close> such that, with \<open>c\<close> the single child of \<open>x\<close> in \<open>s1\<close> (or \<open>NULL\<close>):
  \<^item> the slot that pointed to \<open>x\<close> in \<open>s1\<close>, the root slot or a child slot of a node of the
    treap, holds \<open>c\<close> in \<open>s'\<close>, and the root slot is as in \<open>s1\<close> when it did not point to \<open>x\<close>;
  \<^item> the parent link of \<open>c\<close> is the parent link \<open>x\<close> had in \<open>s1\<close>;
  \<^item> \<open>s'\<close> is a well-formed treap over the nodes of \<open>t\<close> without \<open>x\<close>, and neither the root
    slot nor any field of a node remaining in the treap references \<open>x\<close>;
  \<^item> the fields of \<open>x\<close> itself are in \<open>s'\<close> what they were in \<open>s1\<close>, the state the rotation
    loop left: the splice writes none of them, so the parent link of \<open>x\<close> is not cleared and
    its child link stays. They are the fields \<open>x\<close> had on entry when \<open>x\<close> had at most one
    child on entry; otherwise the rotations of the loop have rewritten them.
  The slot, the child and the former parent are those of \<open>s1\<close>, not of the starting state:
  see the counterexample below.
\<close>

theorem C6_decouple_unlinks:
  assumes wf: "wf_treap s t" and x: "x \<in> set_tree t" and n: "2 * height t \<le> n"
  shows "\<exists>s1 t1 s' t'.
     treapDecouple_loop n s x = Some s1 \<and> wf_treap s1 t1 \<and> set_tree t1 = set_tree t \<and>
     (L (mem s1 x) = None \<or> R (mem s1 x) = None) \<and>
     (L (mem s x) = None \<or> R (mem s x) = None \<longrightarrow> s1 = s) \<and>
     treapDecouple n s x = Some s' \<and> wf_treap s' t' \<and> set_tree t' = set_tree t - {x} \<and>
     (let c = (case R (mem s1 x) of Some r \<Rightarrow> Some r | None \<Rightarrow> L (mem s1 x)) in
        (root s1 = Some x \<longrightarrow> root s' = c) \<and>
        (root s1 \<noteq> Some x \<longrightarrow> root s' = root s1) \<and>
        (\<forall>g \<in> set_tree t1.
           (L (mem s1 g) = Some x \<longrightarrow> L (mem s' g) = c) \<and>
           (R (mem s1 g) = Some x \<longrightarrow> R (mem s' g) = c)) \<and>
        (\<forall>a. c = Some a \<longrightarrow> P (mem s' a) = P (mem s1 x))) \<and>
     root s' \<noteq> Some x \<and>
     (\<forall>b \<in> set_tree t'.
        L (mem s' b) \<noteq> Some x \<and> R (mem s' b) \<noteq> Some x \<and> P (mem s' b) \<noteq> Some x) \<and>
     mem s' x = mem s1 x \<and>
     (L (mem s x) = None \<or> R (mem s x) = None \<longrightarrow> mem s' x = mem s x)"
proof -
  obtain A B where u: "subtree_at t x = \<langle>A, x, B\<rangle>"
    using subtree_at_in[OF x] by blast
  have "rspine A \<le> height (subtree_at t x)" "lspine B \<le> height (subtree_at t x)"
    using rspine_le_height[of A] lspine_le_height[of B] u by auto
  then have fuel: "rspine A + lspine B \<le> n"
    using height_subtree_at[of t x] n by linarith
  from decouple_loop_ok[OF wf x u fuel] obtain s1 t1 where
    l: "treapDecouple_loop n s x = Some s1" "wf_treap s1 t1" "inorder t1 = inorder t"
       "L (mem s1 x) = None \<or> R (mem s1 x) = None" by blast
  have st1: "set_tree t1 = set_tree t" using l(3) by (metis set_inorder)
  have x1: "x \<in> set_tree t1" using x st1 by simp
  have same: "s1 = s" if "L (mem s x) = None \<or> R (mem s x) = None"
    using that l(1) by (cases n) (auto split: option.splits)
  define s' where "s' = treapDecouple_splice s1 x"
  define t' where "t' = splice_tree x t1"
  define c where "c = (case R (mem s1 x) of Some r \<Rightarrow> Some r | None \<Rightarrow> L (mem s1 x))"
  have res: "treapDecouple n s x = Some s'" using l(1) by (simp add: treapDecouple_def s'_def)
  note sp = splice_sim[OF l(2) x1 l(4), folded s'_def t'_def c_def]
  have rep1: "repr (mem s1) (root s1) None t1" and so1: "search_order (mem s1) t1"
    using l(2) by (simp_all add: wf_treap_def)
  have dis1: "distinct (inorder t1)" using so1 by (rule search_order_distinct)
  have rep': "repr (mem s') (root s') None t'" and so': "search_order (mem s') t'"
    using sp(1) by (simp_all add: wf_treap_def)
  have dis': "distinct (inorder t')" using so' by (rule search_order_distinct)
  have xt': "x \<notin> set_tree t'" using sp(2) by simp
  have pnx: "P (mem s1 x) \<noteq> Some x" and cnx: "c \<noteq> Some x"
  proof -
    show "P (mem s1 x) \<noteq> Some x"
      using repr_parent[OF rep1 dis1 x1] set_subtree_at[of t1 x] subtree_at_in[OF x1] by auto
    obtain A1 B1 where u1: "subtree_at t1 x = \<langle>A1, x, B1\<rangle>"
      using subtree_at_in[OF x1] by blast
    have "distinct (inorder \<langle>A1, x, B1\<rangle>)" using distinct_subtree_at[OF dis1, of x] u1 by simp
    then show "c \<noteq> Some x"
      using repr_child_side[OF rep1 u1, of x] by (auto simp: c_def split: option.splits)
  qed
  have slot_root: "root s' = c" if "root s1 = Some x"
    using that root_iff_no_parent[OF rep1 dis1 x1] by (simp add: sp(4))
  have root_keep: "root s' = root s1" if "root s1 \<noteq> Some x"
    using that root_iff_no_parent[OF rep1 dis1 x1] by (auto simp: sp(4))
  have slot_child: "(L (mem s1 g) = Some x \<longrightarrow> L (mem s' g) = c) \<and>
           (R (mem s1 g) = Some x \<longrightarrow> R (mem s' g) = c)" if g: "g \<in> set_tree t1" for g
  proof (cases "L (mem s1 g) = Some x \<or> R (mem s1 g) = Some x")
    case False
    then show ?thesis by simp
  next
    case True
    have pg: "P (mem s1 x) = Some g" using repr_child[OF rep1 g True] by simp
    have sd: "treeKey (mem s1 x) < treeKey (mem s1 g) \<longleftrightarrow> L (mem s1 g) = Some x"
      using wf_sides[OF l(2) g True] .
    have nb: "\<not> (L (mem s1 g) = Some x \<and> R (mem s1 g) = Some x)"
      using repr_children_differ(1)[OF rep1 dis1 g, of x] by auto
    have cg: "c \<noteq> Some g"
      using repr_child[OF rep1 x1, of g] set_subtree_at[of t1 x] pg
        repr_parent[OF rep1 dis1 x1]
      by (auto simp: c_def split: option.splits)
    show ?thesis using True pg sd nb cg by (auto simp: sp(3))
  qed
  have child_par: "P (mem s' a) = P (mem s1 x)" if "c = Some a" for a
    using that by (simp add: sp(3))
  have root': "root s' \<noteq> Some x"
    using repr_rootof[OF rep'] rootof_in[of t' x] xt' by auto
  have noref: "L (mem s' b) \<noteq> Some x \<and> R (mem s' b) \<noteq> Some x \<and> P (mem s' b) \<noteq> Some x"
    if b: "b \<in> set_tree t'" for b
  proof -
    have "L (mem s' b) \<noteq> Some x" "R (mem s' b) \<noteq> Some x"
      using repr_child[OF rep' b, of x] set_subtree_at[of t' b] xt' by auto
    moreover have "P (mem s' b) \<noteq> Some x"
      using repr_parent[OF rep' dis' b] xt' by auto
    ultimately show ?thesis by simp
  qed
  have own: "mem s' x = mem s1 x" using pnx cnx by (simp add: sp(3))
  have own0: "mem s' x = mem s x" if "L (mem s x) = None \<or> R (mem s x) = None"
    using own same[OF that] by simp
  have final: "treapDecouple_loop n s x = Some s1 \<and> wf_treap s1 t1 \<and> set_tree t1 = set_tree t \<and>
     (L (mem s1 x) = None \<or> R (mem s1 x) = None) \<and>
     (L (mem s x) = None \<or> R (mem s x) = None \<longrightarrow> s1 = s) \<and>
     treapDecouple n s x = Some s' \<and> wf_treap s' t' \<and> set_tree t' = set_tree t - {x} \<and>
     (let c = (case R (mem s1 x) of Some r \<Rightarrow> Some r | None \<Rightarrow> L (mem s1 x)) in
        (root s1 = Some x \<longrightarrow> root s' = c) \<and>
        (root s1 \<noteq> Some x \<longrightarrow> root s' = root s1) \<and>
        (\<forall>g \<in> set_tree t1.
           (L (mem s1 g) = Some x \<longrightarrow> L (mem s' g) = c) \<and>
           (R (mem s1 g) = Some x \<longrightarrow> R (mem s' g) = c)) \<and>
        (\<forall>a. c = Some a \<longrightarrow> P (mem s' a) = P (mem s1 x))) \<and>
     root s' \<noteq> Some x \<and>
     (\<forall>b \<in> set_tree t'.
        L (mem s' b) \<noteq> Some x \<and> R (mem s' b) \<noteq> Some x \<and> P (mem s' b) \<noteq> Some x) \<and>
     mem s' x = mem s1 x \<and>
     (L (mem s x) = None \<or> R (mem s x) = None \<longrightarrow> mem s' x = mem s x)"
    unfolding Let_def c_def[symmetric]
    using l(1,2,4) st1 same res sp(1,2) slot_root root_keep slot_child child_par root' noref own own0
    by blast
  show ?thesis
    by (rule exI[of _ s1], rule exI[of _ t1], rule exI[of _ s'], rule exI[of _ t']) (rule final)
qed

theorem C6_decouple_unlinks_witness:
  "wf_treap three_treap three_shape \<and>
   (2::addr) \<in> set_tree three_shape \<and> (1::addr) \<in> set_tree three_shape \<and>
   2 * height three_shape \<le> 4 \<and>
   L (mem three_treap 1) = Some 2 \<and>
   (\<exists>s'. treapDecouple 4 three_treap 2 = Some s' \<and> L (mem s' 1) = None \<and>
         root s' \<noteq> Some 2 \<and> mem s' 2 = mem three_treap 2) \<and>
   (\<exists>s1 s'. treapDecouple_loop 4 three_treap 1 = Some s1 \<and>
         root s1 = Some 3 \<and> L (mem s1 3) = Some 1 \<and>
         L (mem s1 1) = Some 2 \<and> R (mem s1 1) = None \<and> P (mem s1 1) = Some 3 \<and>
         treapDecouple 4 three_treap 1 = Some s' \<and>
         root s' = Some 3 \<and> L (mem s' 3) = Some 2 \<and> P (mem s' 2) = Some 3 \<and>
         mem s' 1 = mem s1 1)"
proof -
  let ?t = three_shape
  have wf: "wf_treap three_treap ?t" by (simp add: inv_defs three_treap_def)
  have x: "2 \<in> set_tree ?t" and x1: "1 \<in> set_tree ?t" by (simp_all add: shape_defs)
  have n: "2 * height ?t \<le> 4" by (simp add: shape_defs)
  have f: "L (mem three_treap 2) = None" "R (mem three_treap 2) = None"
    "L (mem three_treap 1) = Some 2"
    by (simp_all add: three_treap_def)
  have lp: "treapDecouple_loop 4 three_treap 1 \<noteq> None"
    "root (the (treapDecouple_loop 4 three_treap 1)) = Some 3"
    "L (mem (the (treapDecouple_loop 4 three_treap 1)) 3) = Some 1"
    "L (mem (the (treapDecouple_loop 4 three_treap 1)) 1) = Some 2"
    "R (mem (the (treapDecouple_loop 4 three_treap 1)) 1) = None"
    "P (mem (the (treapDecouple_loop 4 three_treap 1)) 1) = Some 3"
    by (simp_all add: model_defs three_treap_def)
  have leaf: "\<exists>s'. treapDecouple 4 three_treap 2 = Some s' \<and> L (mem s' 1) = None \<and>
         root s' \<noteq> Some 2 \<and> mem s' 2 = mem three_treap 2"
    using C6_decouple_unlinks[OF wf x n] f
    by (elim exE conjE) (simp add: Let_def shape_defs)
  have two: "\<exists>s1 s'. treapDecouple_loop 4 three_treap 1 = Some s1 \<and>
         root s1 = Some 3 \<and> L (mem s1 3) = Some 1 \<and>
         L (mem s1 1) = Some 2 \<and> R (mem s1 1) = None \<and> P (mem s1 1) = Some 3 \<and>
         treapDecouple 4 three_treap 1 = Some s' \<and>
         root s' = Some 3 \<and> L (mem s' 3) = Some 2 \<and> P (mem s' 2) = Some 3 \<and>
         mem s' 1 = mem s1 1"
    using C6_decouple_unlinks[OF wf x1 n] lp
    by (elim exE conjE) (simp add: Let_def shape_defs)
  show ?thesis using wf x x1 n f leaf two by simp
qed

text \<open>
  C6 as stated fails, in the three-node example, on both of its clauses.
  \<^item> The decoupled node keeps a parent. Decoupling the leaf with key 3 (address 2) leaves
    its parent field pointing to the root (address 1): \<open>treapDecouple\<close> writes the slot that
    pointed to the node and the parent link of the node's child, never a field of the node.
  \<^item> The slot and the former parent are not those of the starting state. The node with
    key 5 (address 1) is the root, has no parent and has the two children 2 and 3. After
    decoupling it the root slot, which pointed to it, holds 3, the child the loop rotated
    above it, while the single child it had when it was spliced out is 2; that child's
    parent link is 3, not the absent parent the node had; and the node itself is left
    with parent link 3 and left child link 2.
\<close>

theorem C6_decouple_counterexample:
  "treap_inv three_treap three_shape \<and>
   treapDecouple 4 three_treap 2 \<noteq> None \<and>
   L (mem three_treap 2) = None \<and> R (mem three_treap 2) = None \<and>
   P (mem three_treap 2) = Some 1 \<and>
   L (mem (the (treapDecouple 4 three_treap 2)) 1) = None \<and>
   P (mem (the (treapDecouple 4 three_treap 2)) 2) = Some 1 \<and>
   root three_treap = Some 1 \<and> P (mem three_treap 1) = None \<and>
   L (mem three_treap 1) = Some 2 \<and> R (mem three_treap 1) = Some 3 \<and>
   treapDecouple 4 three_treap 1 \<noteq> None \<and>
   root (the (treapDecouple 4 three_treap 1)) = Some 3 \<and>
   P (mem (the (treapDecouple 4 three_treap 1)) 3) = None \<and>
   L (mem (the (treapDecouple 4 three_treap 1)) 3) = Some 2 \<and>
   P (mem (the (treapDecouple 4 three_treap 1)) 2) = Some 3 \<and>
   L (mem (the (treapDecouple 4 three_treap 1)) 1) = Some 2 \<and>
   R (mem (the (treapDecouple 4 three_treap 1)) 1) = None \<and>
   P (mem (the (treapDecouple 4 three_treap 1)) 1) = Some 3"
  by (simp add: model_defs inv_defs three_treap_def)

text \<open>
  C9 (every operation terminates, within a bounded number of rotations), as amended.
  For a well-formed treap of shape \<open>t\<close> and fuel \<open>n\<close> at least the height of \<open>t\<close>:
  \<^item> \<open>treapFind\<close> and \<open>treapUsurpingFind\<close> return for every key;
  \<^item> \<open>treapAppend\<close> returns for every key, present or not, and every priority, when the
    address of the new node is not a node of the treap: its descent visits at most
    \<open>height t\<close> nodes and its priority loop makes at most \<open>height t\<close> rotations, each
    rotation taking the new node one level up (lemmas \<open>bubble_ok\<close>, \<open>depth_rot_tree\<close>);
  \<^item> the rotation loop of \<open>treapDecouple\<close> on a node \<open>x\<close> of the treap returns within
    as many rotations as the right spine of the left subtree of \<open>x\<close> and the left spine of
    its right subtree have nodes together (each rotation removes one node from one of the
    two spines, lemma \<open>decouple_loop_ok\<close>), so \<open>treapDecouple\<close> returns on fuel twice the
    height of \<open>t\<close>.
  The bound for \<open>treapDecouple\<close> is not the tree depth: see the counterexample below.
\<close>

theorem C9_operations_terminate:
  assumes wf: "wf_treap s t" and n: "height t \<le> n"
  shows "(\<exists>r. treapFind n s k = Some r) \<and>
         (\<exists>r. treapUsurpingFind n s k = Some r) \<and>
         (nn \<notin> set_tree t \<longrightarrow> (\<exists>r. treapAppend n s k hk nn = Some r)) \<and>
         (x \<in> set_tree t \<longrightarrow>
            (\<exists>s1. treapDecouple_loop
                     (rspine (left (subtree_at t x)) + lspine (right (subtree_at t x))) s x =
                   Some s1) \<and>
            (\<exists>s'. treapDecouple (2 * n) s x = Some s'))"
proof -
  have rep: "repr (mem s) (root s) None t" and so: "search_order (mem s) t"
    using wf by (simp_all add: wf_treap_def)
  have fnd: "\<exists>r. treapFind n s k = Some r"
  proof (cases "\<forall>a \<in> set_tree t. treeKey (mem s a) \<noteq> k")
    case True
    then show ?thesis unfolding treapFind_def using find_absent[OF rep _ n] by blast
  next
    case False
    then obtain a where a: "a \<in> set_tree t" "treeKey (mem s a) = k" by blast
    have "depth_of t a < n" using depth_lt_height[OF a(1)] n by simp
    then show ?thesis unfolding treapFind_def using find_found[OF rep so a] by blast
  qed
  then have usp: "\<exists>r. treapUsurpingFind n s k = Some r"
    by (auto simp: treapUsurpingFind_def Let_def split: option.splits)
  have app: "\<exists>r. treapAppend n s k hk nn = Some r" if "nn \<notin> set_tree t"
    using append_terminates[OF wf that n] .
  have dec: "(\<exists>s1. treapDecouple_loop
                     (rspine (left (subtree_at t x)) + lspine (right (subtree_at t x))) s x =
                   Some s1) \<and>
            (\<exists>s'. treapDecouple (2 * n) s x = Some s')" if x: "x \<in> set_tree t"
  proof -
    obtain A B where u: "subtree_at t x = \<langle>A, x, B\<rangle>"
      using subtree_at_in[OF x] by blast
    have "rspine A \<le> height (subtree_at t x)" "lspine B \<le> height (subtree_at t x)"
      using rspine_le_height[of A] lspine_le_height[of B] u by auto
    then have fuel: "rspine A + lspine B \<le> 2 * n"
      using height_subtree_at[of t x] n by linarith
    from decouple_loop_ok[OF wf x u order_refl] obtain s1 where
      "treapDecouple_loop (rspine A + lspine B) s x = Some s1" by blast
    moreover from decouple_loop_ok[OF wf x u fuel] obtain s2 where
      "treapDecouple_loop (2 * n) s x = Some s2" by blast
    ultimately show ?thesis using u by (simp add: treapDecouple_def)
  qed
  show ?thesis using fnd usp app dec by blast
qed

theorem C9_operations_terminate_witness:
  "wf_treap three_treap three_shape \<and>
   height three_shape \<le> 2 \<and>
   (4::addr) \<notin> set_tree three_shape \<and>
   (1::addr) \<in> set_tree three_shape \<and>
   (\<exists>r. treapFind 2 three_treap 3 = Some r) \<and>
   (\<exists>r. treapUsurpingFind 2 three_treap 3 = Some r) \<and>
   (\<exists>r. treapAppend 2 three_treap 3 7 4 = Some r) \<and>
   (\<exists>s1. treapDecouple_loop 2 three_treap 1 = Some s1) \<and>
   (\<exists>s'. treapDecouple 4 three_treap 1 = Some s')"
proof -
  let ?t = three_shape
  have wf: "wf_treap three_treap ?t" by (simp add: inv_defs three_treap_def)
  have h: "height ?t \<le> 2" by (simp add: shape_defs)
  have nn: "4 \<notin> set_tree ?t" by (simp add: shape_defs)
  have x: "1 \<in> set_tree ?t" by (simp add: shape_defs)
  have sp: "rspine (left (subtree_at ?t 1)) + lspine (right (subtree_at ?t 1)) = 2" by (simp add: shape_defs)
  have two: "2 * 2 = (4::nat)" by simp
  show ?thesis
    using C9_operations_terminate[OF wf h, of 3 4 7 1] wf h nn x
    unfolding sp two by blast
qed

text \<open>
  C9 as stated fails in its bound. The seven-node treap satisfies every invariant and its
  longest path has four nodes (depth 3); decoupling the root takes five rotations, the
  root sinking along both chains in turn: with fuel for four rotations the loop of
  \<open>treapDecouple\<close> has not finished, with fuel for five it has.
\<close>

theorem C9_rotations_exceed_depth_counterexample:
  "treap_inv seven_treap seven_shape \<and> height seven_shape = 4 \<and>
   treapDecouple 4 seven_treap 1 = None \<and> treapDecouple 5 seven_treap 1 \<noteq> None"
  by (simp add: model_defs inv_defs seven_treap_def)

end
